theory Spec2Isabelle
  imports Main "HOL-Library.Word"
begin

unbundle bit_operations_syntax

section \<open>Data model\<close>

text \<open>
  \<^verbatim>\<open>ulid_t\<close> has one data member, \<^verbatim>\<open>std::array<byte, 16> data\<close>.  An identifier is
  modelled as the list of its bytes, most significant first; the array's fixed size is
  the predicate \<open>length u = 16\<close>.  The spans \<^verbatim>\<open>timestamp_bytes\<close>, \<^verbatim>\<open>random_bytes\<close>,
  \<^verbatim>\<open>high_bytes\<close> and \<^verbatim>\<open>low_bytes\<close> are the views \<open>take 6\<close>, \<open>drop 6\<close>,
  \<open>take 8\<close> and \<open>drop 8\<close> of that list.
\<close>

type_synonym byte = "8 word"
type_synonym u64 = "64 word"
type_synonym u32 = "32 word"
type_synonym ulid_t = "byte list"

definition timestamp_bytes :: "ulid_t \<Rightarrow> byte list" where
  "timestamp_bytes u = take 6 u"

definition random_bytes :: "ulid_t \<Rightarrow> byte list" where
  "random_bytes u = drop 6 u"

definition high_bytes :: "ulid_t \<Rightarrow> byte list" where
  "high_bytes u = take 8 u"

definition low_bytes :: "ulid_t \<Rightarrow> byte list" where
  "low_bytes u = drop 8 u"

definition from_bytes :: "byte list \<Rightarrow> ulid_t" where
  "from_bytes bytes = map (\<lambda>i. bytes ! i) [0..<16]"

definition to_bytes :: "ulid_t \<Rightarrow> byte list" where
  "to_bytes u = u"

text \<open>
  \<^verbatim>\<open>write_big_endian<N>(value, out)\<close>: byte \<open>i\<close> of the output is
  \<^verbatim>\<open>(value >> ((N - 1 - i) * 8)) & 0xFF\<close>.
\<close>

definition write_big_endian :: "nat \<Rightarrow> u64 \<Rightarrow> byte list" where
  "write_big_endian N v = map (\<lambda>i. ucast (drop_bit ((N - 1 - i) * 8) v AND 0xFF)) [0..<N]"

text \<open>The loop \<^verbatim>\<open>x = (x << 8) | b\<close> over a run of bytes, starting from 0.\<close>

definition read_big_endian :: "byte list \<Rightarrow> u64" where
  "read_big_endian bs = foldl (\<lambda>x b. push_bit 8 x OR ucast b) 0 bs"

definition timestamp_ms :: "ulid_t \<Rightarrow> u64" where
  "timestamp_ms u = read_big_endian (timestamp_bytes u)"

section \<open>Base32 codec\<close>

definition ENCODING :: "char list" where
  "ENCODING = ''0123456789ABCDEFGHJKMNPQRSTVWXYZ''"

text \<open>\<^verbatim>\<open>extract_digit(hi, lo, index)\<close>, with \<^verbatim>\<open>shift = 125 - 5 * index\<close> an \<^verbatim>\<open>int\<close>.\<close>

definition extract_digit :: "u64 \<Rightarrow> u64 \<Rightarrow> int \<Rightarrow> u32" where
  "extract_digit hi lo index =
     (let shift = 125 - 5 * index in
      if shift = 0 then ucast (lo AND 0x1F)
      else if shift < 64 then
        ucast ((push_bit (nat (64 - shift)) hi OR drop_bit (nat shift) lo) AND 0x1F)
      else ucast (drop_bit (nat (shift - 64)) hi AND 0x1F))"

definition encode_base32 :: "byte list \<Rightarrow> string" where
  "encode_base32 bytes =
     (let hi = read_big_endian (take 8 bytes);
          lo = read_big_endian (take 8 (drop 8 bytes))
      in map (\<lambda>i. ENCODING ! unat (extract_digit hi lo (int i))) [0..<26])"

definition to_string :: "ulid_t \<Rightarrow> string" where
  "to_string u = encode_base32 u"

definition decode_crockford :: "char \<Rightarrow> byte option" where
  "decode_crockford c =
     (if c = CHR ''0'' \<or> c = CHR ''O'' \<or> c = CHR ''o'' then Some (0 :: byte)
      else if c = CHR ''1'' \<or> c = CHR ''I'' \<or> c = CHR ''i'' \<or> c = CHR ''L'' \<or> c = CHR ''l''
        then Some (1 :: byte)
      else if c = CHR ''2'' then Some (2 :: byte)
      else if c = CHR ''3'' then Some (3 :: byte)
      else if c = CHR ''4'' then Some (4 :: byte)
      else if c = CHR ''5'' then Some (5 :: byte)
      else if c = CHR ''6'' then Some (6 :: byte)
      else if c = CHR ''7'' then Some (7 :: byte)
      else if c = CHR ''8'' then Some (8 :: byte)
      else if c = CHR ''9'' then Some (9 :: byte)
      else if c = CHR ''A'' \<or> c = CHR ''a'' then Some (10 :: byte)
      else if c = CHR ''B'' \<or> c = CHR ''b'' then Some (11 :: byte)
      else if c = CHR ''C'' \<or> c = CHR ''c'' then Some (12 :: byte)
      else if c = CHR ''D'' \<or> c = CHR ''d'' then Some (13 :: byte)
      else if c = CHR ''E'' \<or> c = CHR ''e'' then Some (14 :: byte)
      else if c = CHR ''F'' \<or> c = CHR ''f'' then Some (15 :: byte)
      else if c = CHR ''G'' \<or> c = CHR ''g'' then Some (16 :: byte)
      else if c = CHR ''H'' \<or> c = CHR ''h'' then Some (17 :: byte)
      else if c = CHR ''J'' \<or> c = CHR ''j'' then Some (18 :: byte)
      else if c = CHR ''K'' \<or> c = CHR ''k'' then Some (19 :: byte)
      else if c = CHR ''M'' \<or> c = CHR ''m'' then Some (20 :: byte)
      else if c = CHR ''N'' \<or> c = CHR ''n'' then Some (21 :: byte)
      else if c = CHR ''P'' \<or> c = CHR ''p'' then Some (22 :: byte)
      else if c = CHR ''Q'' \<or> c = CHR ''q'' then Some (23 :: byte)
      else if c = CHR ''R'' \<or> c = CHR ''r'' then Some (24 :: byte)
      else if c = CHR ''S'' \<or> c = CHR ''s'' then Some (25 :: byte)
      else if c = CHR ''T'' \<or> c = CHR ''t'' then Some (26 :: byte)
      else if c = CHR ''V'' \<or> c = CHR ''v'' then Some (27 :: byte)
      else if c = CHR ''W'' \<or> c = CHR ''w'' then Some (28 :: byte)
      else if c = CHR ''X'' \<or> c = CHR ''x'' then Some (29 :: byte)
      else if c = CHR ''Y'' \<or> c = CHR ''y'' then Some (30 :: byte)
      else if c = CHR ''Z'' \<or> c = CHR ''z'' then Some (31 :: byte)
      else None)"

text \<open>
  The inner loop of \<^verbatim>\<open>from_string\<close> over the accumulator \<^verbatim>\<open>acc\<close>, least significant
  word first: each word is shifted left by 5, takes the carry, and hands its top 5 bits on.
\<close>

fun shift_in :: "u64 list \<Rightarrow> u64 \<Rightarrow> u64 list" where
  "shift_in [] carry = []"
| "shift_in (a # as) carry = (push_bit 5 a OR carry) # shift_in as (drop_bit (64 - 5) a)"

text \<open>The outer loop over the characters; \<open>None\<close> is the early \<^verbatim>\<open>return std::nullopt\<close>.\<close>

fun accumulate :: "string \<Rightarrow> u64 list \<Rightarrow> u64 list option" where
  "accumulate [] acc = Some acc"
| "accumulate (ch # s) acc =
     (case decode_crockford ch of
        None \<Rightarrow> None
      | Some v \<Rightarrow> accumulate s (shift_in acc (ucast v)))"

definition from_string :: "string \<Rightarrow> ulid_t option" where
  "from_string s =
     (if length s \<noteq> 26 then None
      else case accumulate s [0, 0, 0] of
        None \<Rightarrow> None
      | Some acc \<Rightarrow>
          if (acc ! 2) AND 0x3 \<noteq> 0 then None
          else Some (write_big_endian 8 (acc ! 1) @ write_big_endian 8 (acc ! 0)))"

section \<open>Ordering\<close>

text \<open>
  The defaulted \<^verbatim>\<open>operator<=>\<close> of \<^verbatim>\<open>ulid_t\<close> compares the member \<^verbatim>\<open>data\<close>, an array of
  unsigned bytes, lexicographically.  \<^verbatim>\<open>std::string\<close> compares lexicographically as well,
  character by character as unsigned values, a proper prefix being smaller.
\<close>

fun lex_less :: "('a::linorder) list \<Rightarrow> 'a list \<Rightarrow> bool" where
  "lex_less [] [] = False"
| "lex_less [] (y # ys) = True"
| "lex_less (x # xs) [] = False"
| "lex_less (x # xs) (y # ys) = (x < y \<or> (x = y \<and> lex_less xs ys))"

definition ulid_less :: "ulid_t \<Rightarrow> ulid_t \<Rightarrow> bool" where
  "ulid_less a b = lex_less a b"

definition string_less :: "string \<Rightarrow> string \<Rightarrow> bool" where
  "string_less s t = lex_less (map (of_char :: char \<Rightarrow> nat) s) (map of_char t)"

section \<open>Random source\<close>

text \<open>
  \<^verbatim>\<open>RomuDuoJr\<close>, the default engine: its state is the pair \<^verbatim>\<open>(x, y)\<close>.
\<close>

type_synonym RomuDuoJr = "u64 \<times> u64"

definition rotl :: "u64 \<Rightarrow> nat \<Rightarrow> u64" where
  "rotl v r = push_bit r v OR drop_bit (64 - r) v"

definition mix :: "u64 \<Rightarrow> u64" where
  "mix v = v XOR drop_bit 23 v XOR drop_bit 51 v"

definition RomuDuoJr_seed :: "u64 \<Rightarrow> RomuDuoJr" where
  "RomuDuoJr_seed seed =
     (let x0 = 0x9E6C63D0676A9A99;
          y0 = (if seed = 0 then 1 else 0) - seed;
          y1 = y0 * x0;
          y2 = mix y1;
          y3 = y2 * x0;
          x1 = x0 * rotl y3 27;
          y4 = mix y3
      in (x1, y4))"

definition RomuDuoJr_next :: "RomuDuoJr \<Rightarrow> u64 \<times> RomuDuoJr" where
  "RomuDuoJr_next e =
     (let old_x = fst e in (old_x, (snd e * 0xD3833E804F4C574B, rotl (snd e - old_x) 27)))"

text \<open>
  \<^verbatim>\<open>rnd::Random<E>::bits_as<byte>()\<close> is \<^verbatim>\<open>bits<8, byte>()\<close>: the top 8 bits of the
  engine's next 64-bit output.  The engine is a template parameter of \<^verbatim>\<open>Random\<close>; it
  enters the model as its \<^verbatim>\<open>next\<close> function on an engine state of any type.
\<close>

definition bits_as_byte :: "('e \<Rightarrow> u64 \<times> 'e) \<Rightarrow> 'e \<Rightarrow> byte \<times> 'e" where
  "bits_as_byte next e =
     (let (v, e') = next e; mask = push_bit 8 1 - 1
      in (ucast (drop_bit (64 - 8) v AND mask), e'))"

text \<open>The loop \<^verbatim>\<open>for(auto& b : random_bytes()) b = rng.bits_as<byte>();\<close> over \<open>n\<close> bytes.\<close>

fun fill_random :: "('e \<Rightarrow> u64 \<times> 'e) \<Rightarrow> nat \<Rightarrow> 'e \<Rightarrow> byte list \<times> 'e" where
  "fill_random next 0 e = ([], e)"
| "fill_random next (Suc n) e =
     (let (b, e1) = bits_as_byte next e; (bs, e2) = fill_random next n e1 in (b # bs, e2))"

section \<open>Generation\<close>

text \<open>
  The clock reading \<^verbatim>\<open>now_ms()\<close> is the argument \<open>ts\<close>.  The thread-local generator
  \<^verbatim>\<open>rng\<close> is passed in and returned; it is seeded on the first call from the clock
  reading and the address of a thread-local variable, so its state is not fixed by the
  program text and is left arbitrary.
\<close>

definition generate :: "('e \<Rightarrow> u64 \<times> 'e) \<Rightarrow> u64 \<Rightarrow> 'e \<Rightarrow> ulid_t \<times> 'e" where
  "generate next ts rng =
     (let ulid = replicate 16 0;
          ulid = write_big_endian 6 ts @ drop 6 ulid;
          (rand, rng') = fill_random next 10 rng
      in (take 6 ulid @ rand, rng'))"

text \<open>\<^verbatim>\<open>increment_big_endian\<close> walks the bytes from the last one towards the first.\<close>

fun increment_from_back :: "byte list \<Rightarrow> byte list" where
  "increment_from_back [] = []"
| "increment_from_back (b # bs) = (if b \<noteq> 0xFF then (b + 1) # bs else 0 # increment_from_back bs)"

definition increment_big_endian :: "byte list \<Rightarrow> byte list" where
  "increment_big_endian rand = rev (increment_from_back (rev rand))"

text \<open>The thread-local variables of \<^verbatim>\<open>generate_monotonic\<close>.\<close>

record 'e mono_state =
  rng :: 'e
  last_ulid :: ulid_t
  last_ts :: u64
  have_last :: bool

definition mono_init :: "'e \<Rightarrow> 'e mono_state" where
  "mono_init e = \<lparr>rng = e, last_ulid = replicate 16 0, last_ts = 0, have_last = False\<rparr>"

definition generate_monotonic ::
  "('e \<Rightarrow> u64 \<times> 'e) \<Rightarrow> u64 \<Rightarrow> 'e mono_state \<Rightarrow> ulid_t \<times> 'e mono_state" where
  "generate_monotonic next ts st =
     (if \<not> have_last st \<or> ts > last_ts st then
        let l = write_big_endian 6 ts @ drop 6 (last_ulid st);
            (rand, rng') = fill_random next 10 (rng st);
            l = take 6 l @ rand
        in (l, \<lparr>rng = rng', last_ulid = l, last_ts = ts, have_last = True\<rparr>)
      else
        let l = take 6 (last_ulid st) @ increment_big_endian (drop 6 (last_ulid st))
        in (l, st\<lparr>last_ulid := l\<rparr>))"

text \<open>Consecutive calls in one context, one clock reading per call.\<close>

fun generate_monotonic_seq ::
  "('e \<Rightarrow> u64 \<times> 'e) \<Rightarrow> u64 list \<Rightarrow> 'e mono_state \<Rightarrow> ulid_t list \<times> 'e mono_state" where
  "generate_monotonic_seq next [] st = ([], st)"
| "generate_monotonic_seq next (ts # tss) st =
     (let (u, st1) = generate_monotonic next ts st;
          (us, st2) = generate_monotonic_seq next tss st1
      in (u # us, st2))"

section \<open>Calendar and text conversions of the standard library\<close>

text \<open>
  \<^verbatim>\<open>std::chrono\<close> converts between a day count since 1970-01-01 and a date of the
  proleptic Gregorian calendar; the functions below are the conversions of
  \<^verbatim>\<open>year_month_day\<close> to and from \<^verbatim>\<open>sys_days\<close> as the library computes them, on
  unbounded integers (all values that occur are far below the limits of the library's
  types).  \<open>tdiv\<close> is the division of C++, which truncates towards zero.
\<close>

definition tdiv :: "int \<Rightarrow> int \<Rightarrow> int" where
  "tdiv a b = sgn a * sgn b * (\<bar>a\<bar> div \<bar>b\<bar>)"

definition is_leap :: "int \<Rightarrow> bool" where
  "is_leap y = (y mod 4 = 0 \<and> (y mod 100 \<noteq> 0 \<or> y mod 400 = 0))"

definition last_day_of_month :: "int \<Rightarrow> int \<Rightarrow> int" where
  "last_day_of_month y m =
     (if m = 2 then (if is_leap y then 29 else 28)
      else if m = 4 \<or> m = 6 \<or> m = 9 \<or> m = 11 then 30 else 31)"

text \<open>\<^verbatim>\<open>year_month_day::ok()\<close>.\<close>

definition ymd_ok :: "int \<Rightarrow> int \<Rightarrow> int \<Rightarrow> bool" where
  "ymd_ok y m d =
     (- 32767 \<le> y \<and> y \<le> 32767 \<and> 1 \<le> m \<and> m \<le> 12 \<and> 1 \<le> d \<and> d \<le> last_day_of_month y m)"

text \<open>\<^verbatim>\<open>sys_days{ymd}\<close>.\<close>

definition days_from_civil :: "int \<Rightarrow> int \<Rightarrow> int \<Rightarrow> int" where
  "days_from_civil y m d =
     (let yr = y - (if m \<le> 2 then 1 else 0);
          era = tdiv (if yr \<ge> 0 then yr else yr - 399) 400;
          yoe = yr - era * 400;
          doy = (153 * (m + (if m > 2 then - 3 else 9)) + 2) div 5 + d - 1;
          doe = yoe * 365 + yoe div 4 - yoe div 100 + doy
      in era * 146097 + doe - 719468)"

text \<open>\<^verbatim>\<open>year_month_day{sys_days}\<close>: year, month and day of a day count.\<close>

definition civil_from_days :: "int \<Rightarrow> int \<times> int \<times> int" where
  "civil_from_days days =
     (let z = days + 719468;
          era = tdiv (if z \<ge> 0 then z else z - 146096) 146097;
          doe = z - era * 146097;
          yoe = (doe - doe div 1460 + doe div 36524 - doe div 146096) div 365;
          yr = yoe + era * 400;
          doy = doe - (365 * yoe + yoe div 4 - yoe div 100);
          mp = (5 * doy + 2) div 153;
          d = doy - (153 * mp + 2) div 5 + 1;
          m = (if mp < 10 then mp + 3 else mp - 9)
      in (yr + (if m \<le> 2 then 1 else 0), m, d))"

text \<open>Decimal output of \<^verbatim>\<open>std::format\<close>: the digits of a number, zero-padded to a minimal width.\<close>

fun dec_digits :: "nat \<Rightarrow> string" where
  "dec_digits n =
     (if n < 10 then [char_of (48 + n)] else dec_digits (n div 10) @ [char_of (48 + n mod 10)])"

definition format_int :: "nat \<Rightarrow> int \<Rightarrow> string" where
  "format_int w n =
     (if n < 0 then CHR ''-'' # replicate (w - 1 - length (dec_digits (nat (- n)))) CHR ''0''
                      @ dec_digits (nat (- n))
      else replicate (w - length (dec_digits (nat n))) CHR ''0'' @ dec_digits (nat n))"

text \<open>
  \<^verbatim>\<open>std::from_chars\<close> for \<^verbatim>\<open>unsigned\<close>, base 10, as used by the lambda \<^verbatim>\<open>parse_u32\<close>: it
  consumes the longest run of decimal digits, fails on an empty run and on a value that
  does not fit 32 bits; \<^verbatim>\<open>parse_u32\<close> also fails unless the run is the whole field.
\<close>

definition is_digit :: "char \<Rightarrow> bool" where
  "is_digit c = (48 \<le> (of_char c :: nat) \<and> (of_char c :: nat) \<le> 57)"

definition dec_value :: "string \<Rightarrow> nat" where
  "dec_value ds = foldl (\<lambda>v c. v * 10 + (of_char c - 48)) 0 ds"

definition parse_u32 :: "string \<Rightarrow> nat \<Rightarrow> nat \<Rightarrow> nat option" where
  "parse_u32 s pos len =
     (let field = take len (drop pos s);
          run = takeWhile is_digit field
      in if run = [] \<or> dec_value run \<ge> 4294967296 then None
         else if length run \<noteq> len then None
         else Some (dec_value run))"

section \<open>Readable form\<close>

definition to_readable_string :: "ulid_t \<Rightarrow> string" where
  "to_readable_string u =
     (let ms = sint (timestamp_ms u);
          secs = ms div 1000;
          days = secs div 86400;
          tod = secs mod 86400;
          (y, m, d) = civil_from_days days;
          out = format_int 4 y @ format_int 2 m @ format_int 2 d @ ''T''
                @ format_int 2 (tod div 3600) @ format_int 2 (tod div 60 mod 60)
                @ format_int 2 (tod mod 60) @ format_int 3 (ms mod 1000) @ ''Z'';
          full = to_string u
      in out @ drop 10 full)"

definition from_readable_string :: "string \<Rightarrow> ulid_t option" where
  "from_readable_string s =
     (if length s \<noteq> 35 \<or> s ! 8 \<noteq> CHR ''T'' \<or> s ! 18 \<noteq> CHR ''Z'' then None
      else
        case parse_u32 s 0 4 of None \<Rightarrow> None | Some year_num \<Rightarrow>
        case parse_u32 s 4 2 of None \<Rightarrow> None | Some month_num \<Rightarrow>
        case parse_u32 s 6 2 of None \<Rightarrow> None | Some day_num \<Rightarrow>
        case parse_u32 s 9 2 of None \<Rightarrow> None | Some hour_num \<Rightarrow>
        case parse_u32 s 11 2 of None \<Rightarrow> None | Some minute_num \<Rightarrow>
        case parse_u32 s 13 2 of None \<Rightarrow> None | Some second_num \<Rightarrow>
        case parse_u32 s 15 3 of None \<Rightarrow> None | Some millis_num \<Rightarrow>
          if month_num = 0 \<or> month_num > 12 \<or> day_num = 0 \<or> day_num > 31 \<or> hour_num > 23
             \<or> minute_num > 59 \<or> second_num > 59 \<or> millis_num > 999 then None
          else if \<not> ymd_ok (int year_num) (int month_num) (int day_num) then None
          else
            let day_tp = days_from_civil (int year_num) (int month_num) (int day_num);
                dur = day_tp * 86400000 + int hour_num * 3600000 + int minute_num * 60000
                      + int second_num * 1000 + int millis_num
            in if dur < 0 then None
               else
                 let timestamp_ms = (word_of_int dur :: u64);
                     tmp = write_big_endian 6 timestamp_ms @ drop 6 (replicate 16 0);
                     canonical = to_string tmp;
                     canonical = take 10 canonical @ take 16 (drop 19 s) @ drop 26 canonical
                 in from_string canonical)"

section \<open>Values of byte strings, accumulators and digit strings\<close>

text \<open>
  The number a run of bytes denotes, most significant byte first; the number an
  accumulator of 64-bit words denotes, least significant word first; the value of a
  character as a base-32 digit (0 for a character that is not one); the number a string
  accumulates when each character multiplies the running value by 32 and adds its digit;
  and digit \<open>i\<close> of a number written with 26 base-32 digits.
\<close>

definition be_nat :: "byte list \<Rightarrow> nat" where
  "be_nat bs = foldl (\<lambda>n b. n * 256 + unat b) 0 bs"

fun le_val :: "u64 list \<Rightarrow> nat" where
  "le_val [] = 0"
| "le_val (a # as) = unat a + 2 ^ 64 * le_val as"

definition digits_val :: "nat list \<Rightarrow> nat" where
  "digits_val ds = foldl (\<lambda>v d. v * 32 + d) 0 ds"

definition digit :: "char \<Rightarrow> nat" where
  "digit c = (case decode_crockford c of None \<Rightarrow> 0 | Some v \<Rightarrow> unat v)"

definition acc130 :: "string \<Rightarrow> nat" where
  "acc130 s = foldl (\<lambda>v c. v * 32 + digit c) 0 s"

definition digit_at :: "nat \<Rightarrow> nat \<Rightarrow> nat" where
  "digit_at N i = (N div 32 ^ (25 - i)) mod 32"

text \<open>
  The characters \<^verbatim>\<open>from_string\<close> is meant to accept: the 32 symbols of the alphabet, the
  lower-case forms of its letters, and the aliases \<open>O o\<close> (for 0) and \<open>I i L l\<close> (for 1).
  The canonical form of a character: an alias becomes its digit, a lower-case letter its
  upper-case form, any other character stays.
\<close>

definition accepted_symbol :: "char \<Rightarrow> bool" where
  "accepted_symbol c =
     (c \<in> set ''0123456789ABCDEFGHJKMNPQRSTVWXYZ''
      \<or> c \<in> set ''abcdefghjkmnpqrstvwxyz''
      \<or> c \<in> set ''OoIiLl'')"

definition canonical_char :: "char \<Rightarrow> char" where
  "canonical_char c =
     (if c = CHR ''O'' \<or> c = CHR ''o'' then CHR ''0''
      else if c = CHR ''I'' \<or> c = CHR ''i'' \<or> c = CHR ''L'' \<or> c = CHR ''l'' then CHR ''1''
      else if 97 \<le> (of_char c :: nat) \<and> (of_char c :: nat) \<le> 122
        then char_of ((of_char c :: nat) - 32)
      else c)"

text \<open>
  Auxiliary notions for the calendar: within a 400-year era that starts on 1 March, the
  day on which year \<open>Y\<close> of the era starts and the day on which it ends; the intermediate
  value and the year of the era that \<open>civil_from_days\<close> computes from a day of the era;
  the month and day of the month it computes from a day of the year, checked against the
  lengths of the months; and the length of a year of the era, checked against the leap
  year rule.
\<close>

definition year_start :: "int \<Rightarrow> int" where
  "year_start Y = 365 * Y + Y div 4 - Y div 100"

definition year_end :: "int \<Rightarrow> int" where
  "year_end Y = (if Y = 399 then 146096 else year_start (Y + 1) - 1)"

definition hinnant_n :: "int \<Rightarrow> int" where
  "hinnant_n doe = doe - doe div 1460 + doe div 36524 - doe div 146096"

definition hinnant_yoe :: "int \<Rightarrow> int" where
  "hinnant_yoe doe = hinnant_n doe div 365"

definition month_day_ok :: "int \<Rightarrow> bool" where
  "month_day_ok doy =
     (let mp = (5 * doy + 2) div 153;
          d = doy - (153 * mp + 2) div 5 + 1
      in 0 \<le> mp \<and> mp \<le> 11 \<and> 1 \<le> d
         \<and> (if mp = 11 then d = doy - 336
             else d \<le> (if mp = 1 \<or> mp = 3 \<or> mp = 6 \<or> mp = 8 then 30 else 31)))"

definition year_length_ok :: "int \<Rightarrow> bool" where
  "year_length_ok Y =
     (year_end Y - year_start Y \<le> 365
      \<and> (if year_end Y - year_start Y = 365 then is_leap (Y + 1) else True))"

text \<open>The decimal digits of \<open>n\<close> in exactly \<open>w\<close> places, most significant first.\<close>

definition fixed_digits :: "nat \<Rightarrow> nat \<Rightarrow> string" where
  "fixed_digits w n = map (\<lambda>i. char_of (48 + (n div 10 ^ (w - 1 - i)) mod 10)) [0..<w]"

section \<open>Word arithmetic\<close>

lemma push_bit_or_nat: "b < 2 ^ n \<Longrightarrow> push_bit n (a::nat) OR b = a * 2 ^ n + b"
proof -
  assume b: "b < 2 ^ n"
  have "push_bit n a AND b = 0"
  proof (rule bit_eqI)
    fix m
    have "\<not> (n \<le> m \<and> bit b m)"
    proof
      assume h: "n \<le> m \<and> bit b m"
      then have "(2::nat) ^ n \<le> 2 ^ m" by simp
      with b have "b < 2 ^ m" by linarith
      then have "b div 2 ^ m = 0" by simp
      with h show False by (simp add: bit_iff_odd)
    qed
    then show "bit (push_bit n a AND b) m = bit (0::nat) m"
      by (auto simp: bit_simps)
  qed
  then have "push_bit n a + b = push_bit n a OR b"
    by (rule disjunctive_add_eq_or)
  then show ?thesis by (simp add: push_bit_eq_mult)
qed

lemma unat_shift8_or: "unat x < 2 ^ 56 \<Longrightarrow> unat (push_bit 8 (x::u64) OR ucast (b::byte)) = unat x * 256 + unat b"
proof -
  assume x: "unat x < 2 ^ 56"
  have b: "unat b < 2 ^ 8" using unsigned_less [of b] by simp
  have "unat (push_bit 8 x OR (ucast b :: u64)) = take_bit 64 (push_bit 8 (unat x)) OR take_bit 64 (unat b)"
    by (simp add: unsigned_or_eq unsigned_push_bit_eq unsigned_ucast_eq)
  also have "take_bit 64 (unat b) = unat b" using b by (simp add: take_bit_nat_eq_self)
  also have "take_bit 64 (push_bit 8 (unat x)) = push_bit 8 (unat x)"
    using x by (simp add: take_bit_nat_eq_self push_bit_eq_mult)
  also have "push_bit 8 (unat x) OR unat b = unat x * 2 ^ 8 + unat b"
    using b by (rule push_bit_or_nat)
  finally show ?thesis by simp
qed

lemma unat_shift5_or: "unat (c::u64) < 32 \<Longrightarrow> unat (push_bit 5 (a::u64) OR c) = (unat a * 32) mod 2 ^ 64 + unat c"
proof -
  assume c: "unat c < 32"
  have "unat (push_bit 5 a OR c) = take_bit 64 (push_bit 5 (unat a)) OR unat c"
    by (simp add: unsigned_or_eq unsigned_push_bit_eq)
  also have "take_bit 64 (push_bit 5 (unat a)) = push_bit 5 (take_bit 59 (unat a))"
    by (simp add: take_bit_push_bit)
  also have "push_bit 5 (take_bit 59 (unat a)) OR unat c = take_bit 59 (unat a) * 2 ^ 5 + unat c"
    using c by (intro push_bit_or_nat) simp
  also have "take_bit 59 (unat a) * 2 ^ 5 = (unat a * 32) mod 2 ^ 64"
    using mod_mult_mult2 [of "unat a" 32 "2 ^ 59"] by (simp add: take_bit_eq_mod)
  finally show ?thesis .
qed

lemma unat_drop_bit_div: "unat (drop_bit k (a::u64)) = unat a div 2 ^ k"
  by (metis drop_bit_eq_div unat_drop_bit_eq)

lemma unat_and_1F: "unat (ucast (x AND (0x1F::u64)) :: u32) = unat x mod 32"
proof -
  have "(0x1F::u64) = mask 5" by (simp add: mask_eq_exp_minus_1)
  then have "x AND 0x1F = take_bit 5 x" by (simp add: take_bit_eq_mask)
  moreover have "unat (ucast (take_bit 5 x) :: u32) = take_bit 5 (unat x)"
    by (simp add: unsigned_ucast_eq unsigned_take_bit_eq)
  ultimately show ?thesis
    by (simp add: take_bit_eq_mod)
qed

lemma unat_byte_of: "unat (ucast (drop_bit k (v::u64) AND 0xFF) :: byte) = (unat v div 2 ^ k) mod 256"
proof -
  have "(0xFF::u64) = mask 8" by (simp add: mask_eq_exp_minus_1)
  then have "drop_bit k v AND 0xFF = take_bit 8 (drop_bit k v)" by (simp add: take_bit_eq_mask)
  moreover have "unat (ucast (take_bit 8 (drop_bit k v)) :: byte) = take_bit 8 (unat (drop_bit k v))"
    by (simp add: unsigned_ucast_eq unsigned_take_bit_eq)
  ultimately show ?thesis
    by (simp add: take_bit_eq_mod unat_drop_bit_div)
qed

lemma be_nat_Nil [simp]: "be_nat [] = 0"
  by (simp add: be_nat_def)

lemma be_nat_snoc [simp]: "be_nat (bs @ [b]) = be_nat bs * 256 + unat b"
  by (simp add: be_nat_def)

lemma unat_byte_less: "unat (b::byte) < 256"
  using unsigned_less [of b] by simp

lemma be_nat_bound: "be_nat bs < 256 ^ length bs"
proof (induction bs rule: rev_induct)
  case Nil
  then show ?case by simp
next
  case (snoc b bs)
  have "be_nat bs * 256 + unat b < (be_nat bs + 1) * 256"
    using unat_byte_less [of b] by simp
  also have "\<dots> \<le> 256 ^ length bs * 256"
    using snoc.IH by (intro mult_le_mono1) simp
  finally show ?case by simp
qed

lemma be_nat_append: "be_nat (xs @ ys) = be_nat xs * 256 ^ length ys + be_nat ys"
proof (induction ys rule: rev_induct)
  case Nil
  then show ?case by simp
next
  case (snoc y ys)
  have "be_nat (xs @ ys @ [y]) = be_nat ((xs @ ys) @ [y])" by simp
  also have "\<dots> = be_nat (xs @ ys) * 256 + unat y" by (rule be_nat_snoc)
  finally show ?case using snoc.IH by (simp add: algebra_simps)
qed

lemma be_nat_Cons: "be_nat (x # xs) = unat x * 256 ^ length xs + be_nat xs"
  using be_nat_append [of "[x]" xs] by (simp add: be_nat_def)

lemma be_nat_inj: "length xs = length ys \<Longrightarrow> be_nat xs = be_nat ys \<Longrightarrow> xs = ys"
proof (induction xs ys rule: list_induct2)
  case Nil
  then show ?case by simp
next
  case (Cons x xs y ys)
  let ?m = "(256::nat) ^ length xs"
  from Cons.prems Cons.hyps have eq: "unat x * ?m + be_nat xs = unat y * ?m + be_nat ys"
    by (simp add: be_nat_Cons)
  have bx: "be_nat xs < ?m" by (rule be_nat_bound)
  have by': "be_nat ys < ?m" using be_nat_bound [of ys] Cons.hyps by simp
  from eq have "(unat x * ?m + be_nat xs) div ?m = (unat y * ?m + be_nat ys) div ?m" by simp
  with bx by' have "unat x = unat y" by simp
  then have "x = y" by (rule word_unat_eq_iff [THEN iffD2])
  moreover from eq have "(unat x * ?m + be_nat xs) mod ?m = (unat y * ?m + be_nat ys) mod ?m" by simp
  with bx by' have "be_nat xs = be_nat ys" by simp
  ultimately show ?case using Cons.IH by simp
qed

lemma read_big_endian_snoc:
  "read_big_endian (bs @ [b]) = push_bit 8 (read_big_endian bs) OR ucast b"
  by (simp add: read_big_endian_def)

lemma unat_read_big_endian: "length bs \<le> 8 \<Longrightarrow> unat (read_big_endian bs) = be_nat bs"
proof (induction bs rule: rev_induct)
  case Nil
  then show ?case by (simp add: read_big_endian_def)
next
  case (snoc b bs)
  then have ih: "unat (read_big_endian bs) = be_nat bs" and len: "length bs \<le> 7" by simp_all
  have "be_nat bs < 256 ^ length bs" by (rule be_nat_bound)
  also have "(256::nat) ^ length bs \<le> 256 ^ 7" using len by (intro power_increasing) simp_all
  finally have "unat (read_big_endian bs) < 2 ^ 56" using ih by simp
  then show ?case by (simp add: read_big_endian_snoc unat_shift8_or ih)
qed

lemma length_write_big_endian [simp]: "length (write_big_endian N v) = N"
  by (simp add: write_big_endian_def)

lemma write_big_endian_Suc:
  "write_big_endian (Suc N) v = ucast (drop_bit (N * 8) v AND 0xFF) # write_big_endian N v"
  by (simp add: write_big_endian_def upt_conv_Cons map_Suc_upt [symmetric] del: upt_Suc)

lemma be_nat_write_big_endian: "be_nat (write_big_endian N v) = unat v mod 256 ^ N"
proof (induction N)
  case 0
  then show ?case by (simp add: write_big_endian_def)
next
  case (Suc N)
  have "(2::nat) ^ (8 * N) = (2 ^ 8) ^ N" by (rule power_mult)
  then have "(256::nat) ^ N = 2 ^ (N * 8)" by (simp add: mult.commute)
  then have "be_nat (write_big_endian (Suc N) v) = (unat v div 256 ^ N) mod 256 * 256 ^ N + unat v mod 256 ^ N"
    by (simp add: write_big_endian_Suc be_nat_Cons unat_byte_of Suc.IH)
  also have "\<dots> = unat v mod (256 ^ N * 256)"
    by (simp add: mod_mult2_eq)
  finally show ?case by (simp add: mult.commute)
qed

lemma hi_lo_div_gen:
  assumes "L < 2 ^ n" "n \<le> s"
  shows "(H * 2 ^ n + L) div 2 ^ s = (H::nat) div 2 ^ (s - n)"
proof -
  have "(2::nat) ^ s = 2 ^ n * 2 ^ (s - n)"
    using assms(2) by (simp add: power_add [symmetric])
  then have "(H * 2 ^ n + L) div 2 ^ s = ((H * 2 ^ n + L) div 2 ^ n) div 2 ^ (s - n)"
    by (simp only: div_mult2_eq)
  also have "(H * 2 ^ n + L) div 2 ^ n = H" using assms(1) by simp
  finally show ?thesis .
qed

lemma hi_lo_div:
  assumes "L < 2 ^ 64" "64 \<le> s"
  shows "(H * 2 ^ 64 + L) div 2 ^ s = (H::nat) div 2 ^ (s - 64)"
  using assms by (rule hi_lo_div_gen)

lemma unat_u64_less: "unat (x::u64) < 2 ^ 64"
  using unsigned_less [of x] by simp

lemma extract_hi:
  "64 \<le> s \<Longrightarrow> unat (ucast (drop_bit (s - 64) hi AND (0x1F::u64)) :: u32)
     = ((unat hi * 2 ^ 64 + unat (lo::u64)) div 2 ^ s) mod 32"
  using hi_lo_div [of "unat lo" s "unat hi"] unat_u64_less [of lo] by (simp add: unat_and_1F unat_drop_bit_div)

lemma extract_lo:
  "unat (ucast (lo AND (0x1F::u64)) :: u32) = (unat hi * 2 ^ 64 + unat (lo::u64)) mod 32"
proof -
  have "(32::nat) dvd unat hi * 2 ^ 64" by simp
  then have "(unat hi * 2 ^ 64 + unat lo) mod 32 = unat lo mod 32"
    by (metis add.commute mod_add_self2 dvd_eq_mod_eq_0 mod_add_left_eq add_0)
  then show ?thesis by (simp add: unat_and_1F)
qed

lemma unat_mid:
  assumes "0 < s" "s < 64"
  shows "unat (push_bit (64 - s) (hi::u64) OR drop_bit s (lo::u64))
     = ((unat hi * 2 ^ 64 + unat lo) div 2 ^ s) mod 2 ^ 64"
proof -
  define k where "k = 64 - s"
  define H where "H = unat hi"
  define B where "B = unat lo div 2 ^ s"
  have ks: "k + s = 64" and k64: "k \<le> 64" using assms by (simp_all add: k_def)
  have p64: "(2::nat) ^ 64 = 2 ^ k * 2 ^ s" using ks by (simp add: power_add [symmetric])
  have "unat lo < 2 ^ k * 2 ^ s" using unat_u64_less [of lo] p64 by simp
  then have B: "B < 2 ^ k" unfolding B_def
    by (simp add: less_mult_imp_div_less)
  have "unat (push_bit k hi OR drop_bit s lo) = take_bit 64 (push_bit k H) OR B"
    by (simp add: unsigned_or_eq unsigned_push_bit_eq unat_drop_bit_div H_def B_def)
  also have "take_bit 64 (push_bit k H) = push_bit k (take_bit s H)"
    using ks by (simp add: take_bit_push_bit) (metis add_diff_cancel_left')
  also have "push_bit k (take_bit s H) OR B = take_bit s H * 2 ^ k + B"
    using B by (rule push_bit_or_nat)
  finally have lhs: "unat (push_bit k hi OR drop_bit s lo) = H mod 2 ^ s * 2 ^ k + B"
    by (simp add: take_bit_eq_mod)
  have "(H * 2 ^ 64 + unat lo) div 2 ^ s = H * 2 ^ k + B"
    unfolding B_def p64 by (simp add: mult.assoc [symmetric])
  moreover have "(H * 2 ^ k + B) mod (2 ^ k * 2 ^ s) = H mod 2 ^ s * 2 ^ k + B"
    using B by (simp add: mod_mult2_eq)
  ultimately have "((H * 2 ^ 64 + unat lo) div 2 ^ s) mod 2 ^ 64 = H mod 2 ^ s * 2 ^ k + B"
    using p64 by simp
  with lhs show ?thesis by (simp add: k_def H_def)
qed

lemma extract_mid:
  assumes "0 < s" "s < 64"
  shows "unat (ucast ((push_bit (64 - s) (hi::u64) OR drop_bit s (lo::u64)) AND 0x1F) :: u32)
     = ((unat hi * 2 ^ 64 + unat lo) div 2 ^ s) mod 32"
proof -
  have "(32::nat) dvd 2 ^ 64" by simp
  then show ?thesis
    by (simp only: unat_and_1F unat_mid [OF assms] mod_mod_cancel)
qed

lemma unat_extract_digit:
  assumes "i < 26"
  shows "unat (extract_digit hi lo (int i)) = ((unat hi * 2 ^ 64 + unat lo) div 2 ^ (125 - 5 * i)) mod 32"
proof -
  define s where "s = 125 - 5 * i"
  have si: "125 - 5 * int i = int s" using assms by (simp add: s_def)
  consider "s = 0" | "0 < s" "s < 64" | "64 \<le> s" by linarith
  then show ?thesis
  proof cases
    case 1
    then show ?thesis
      unfolding extract_digit_def Let_def si s_def [symmetric] using extract_lo [of lo hi] by simp
  next
    case 2
    have "nat (64 - int s) = 64 - s" by simp
    with 2 show ?thesis
      unfolding extract_digit_def Let_def si s_def [symmetric] using extract_mid [of s hi lo] by simp
  next
    case 3
    have "nat (int s - 64) = s - 64" by simp
    with 3 show ?thesis
      unfolding extract_digit_def Let_def si s_def [symmetric] using extract_hi [of s hi lo] by simp
  qed
qed

lemma mod_split_limb:
  assumes "r < (M::nat)"
  shows "(r + M * Q) mod (M * K) = r + M * (Q mod K)"
proof -
  have "(r + M * Q) div M = Q" using assms by simp
  moreover have "(r + M * Q) mod M = r" using assms by simp
  ultimately show ?thesis by (simp add: mod_mult2_eq)
qed

lemma length_shift_in [simp]: "length (shift_in as c) = length as"
  by (induction as arbitrary: c) simp_all

lemma le_val_shift_in:
  "unat c < 32 \<Longrightarrow> le_val (shift_in as c) = (le_val as * 32 + unat c) mod 2 ^ (64 * length as)"
proof (induction as arbitrary: c)
  case Nil
  then show ?case by simp
next
  case (Cons a as)
  define M :: nat where "M = 2 ^ 64"
  define A where "A = unat a"
  define L where "L = le_val as"
  define C where "C = unat c"
  define K :: nat where "K = 2 ^ (64 * length as)"
  define r where "r = (A * 32) mod M + C"
  define Q where "Q = L * 32 + A div 2 ^ 59"
  have M59: "M = 2 ^ 59 * 32" by (simp add: M_def)
  have w2: "unat (push_bit 5 a OR c) = r"
    using unat_shift5_or [of c a] Cons.prems by (simp add: M_def A_def C_def r_def)
  have w3: "unat (drop_bit 59 a) = A div 2 ^ 59"
    by (simp add: unat_drop_bit_div A_def)
  have "A < M" using unat_u64_less [of a] by (simp add: A_def M_def)
  then have c59: "A div 2 ^ 59 < 32" unfolding M59 by (simp add: less_mult_imp_div_less)
  have ih: "le_val (shift_in as (drop_bit 59 a)) = Q mod K"
    using Cons.IH [of "drop_bit 59 a"] c59 by (simp add: w3 Q_def L_def K_def)
  have am: "(A * 32) mod M = (A mod 2 ^ 59) * 32"
    unfolding M59 by (rule mod_mult_mult2)
  have "A mod 2 ^ 59 * 32 + 32 \<le> M"
  proof -
    have "A mod 2 ^ 59 < 2 ^ 59" by simp
    then have "A mod 2 ^ 59 + 1 \<le> 2 ^ 59" by linarith
    then have "(A mod 2 ^ 59 + 1) * 32 \<le> 2 ^ 59 * 32" by (rule mult_le_mono1)
    then show ?thesis by (simp add: M59)
  qed
  then have rM: "r < M" using Cons.prems by (simp add: r_def am C_def)
  have "A * 32 = (A div 2 ^ 59) * M + (A * 32) mod M"
  proof -
    define P :: nat where "P = 2 ^ 59"
    have e: "A div P * P + A mod P = A" by simp
    have "(A div P * P + A mod P) * 32 = A div P * (P * 32) + A mod P * 32"
      by (simp only: distrib_right mult.assoc)
    then have e2: "A * 32 = A div P * (P * 32) + A mod P * 32" by (simp only: e)
    have m: "(A * 32) mod (P * 32) = A mod P * 32" by (rule mod_mult_mult2)
    have "A * 32 = A div P * (P * 32) + (A * 32) mod (P * 32)"
      by (simp only: m) (rule e2)
    then show ?thesis unfolding M59 P_def .
  qed
  then have total: "(A + M * L) * 32 + C = r + M * Q"
    by (simp add: r_def Q_def algebra_simps)
  have "le_val (shift_in (a # as) c) = r + M * (Q mod K)"
    by (simp add: w2 ih M_def)
  also have "\<dots> = (r + M * Q) mod (M * K)"
    using rM by (rule mod_split_limb [symmetric])
  also have "M * K = 2 ^ (64 * length (a # as))"
    by (simp add: M_def K_def power_add)
  finally show ?case
    using total by (simp add: A_def L_def C_def M_def)
qed

lemma decode_crockford_less: "decode_crockford c = Some v \<Longrightarrow> unat v < 32"
  by (simp add: decode_crockford_def split: if_splits)

lemma digit_less: "digit c < 32"
  by (auto simp: digit_def dest: decode_crockford_less split: option.splits)

lemma decode_ENCODING_all:
  "\<forall>d \<in> set [0..<32]. decode_crockford (ENCODING ! d) = Some (of_nat d)"
  by code_simp

lemma decode_ENCODING: "d < 32 \<Longrightarrow> decode_crockford (ENCODING ! d) = Some (of_nat d)"
  using decode_ENCODING_all by simp

lemma digit_ENCODING: "d < 32 \<Longrightarrow> digit (ENCODING ! d) = d"
  by (simp add: digit_def decode_ENCODING unat_of_nat take_bit_nat_eq_self)

lemma foldl_step_shift:
  "foldl (\<lambda>v c. v * 32 + digit c) x s = x * 32 ^ length s + acc130 s"
proof (induction s rule: rev_induct)
  case Nil
  then show ?case by (simp add: acc130_def)
next
  case (snoc c s)
  then show ?case by (simp add: acc130_def algebra_simps)
qed

lemma acc130_Cons: "acc130 (c # s) = digit c * 32 ^ length s + acc130 s"
  using foldl_step_shift [of "digit c" s] by (simp add: acc130_def)

lemma acc130_snoc: "acc130 (s @ [c]) = acc130 s * 32 + digit c"
  by (simp add: acc130_def)

lemma acc130_bound: "acc130 s < 32 ^ length s"
proof (induction s rule: rev_induct)
  case Nil
  then show ?case by (simp add: acc130_def)
next
  case (snoc c s)
  have "acc130 s * 32 + digit c < (acc130 s + 1) * 32" using digit_less [of c] by simp
  also have "\<dots> \<le> 32 ^ length s * 32" using snoc.IH by (intro mult_le_mono1) simp
  finally show ?case by (simp add: acc130_snoc)
qed

lemma accumulate_None:
  "\<exists>c \<in> set s. decode_crockford c = None \<Longrightarrow> accumulate s acc = None"
  by (induction s arbitrary: acc) (auto split: option.splits)

lemma accumulate_Some:
  assumes "\<forall>c \<in> set s. decode_crockford c \<noteq> None"
  shows "\<exists>acc'. accumulate s acc = Some acc' \<and> length acc' = length acc
           \<and> le_val acc' = (le_val acc * 32 ^ length s + acc130 s) mod 2 ^ (64 * length acc)"
  using assms
proof (induction s arbitrary: acc)
  case Nil
  have "le_val acc < 2 ^ (64 * length acc)"
  proof (induction acc)
    case Nil
    then show ?case by simp
  next
    case (Cons a as)
    have "unat a + 2 ^ 64 * le_val as < 2 ^ 64 * (le_val as + 1)"
      using unat_u64_less [of a] by simp
    also have "\<dots> \<le> 2 ^ 64 * 2 ^ (64 * length as)"
      using Cons by (intro mult_le_mono2) simp
    finally show ?case by (simp add: power_add)
  qed
  then show ?case by (simp add: acc130_def)
next
  case (Cons c s)
  then obtain v where v: "decode_crockford c = Some v" by auto
  define acc1 where "acc1 = shift_in acc (ucast v)"
  have uv: "unat (ucast v :: u64) = unat v" by (simp add: unsigned_ucast_eq take_bit_nat_eq_self unat_byte_less [THEN less_trans])
  have d: "digit c = unat v" by (simp add: digit_def v)
  have l1: "length acc1 = length acc" by (simp add: acc1_def)
  have v1: "le_val acc1 = (le_val acc * 32 + digit c) mod 2 ^ (64 * length acc)"
    using decode_crockford_less [OF v] by (simp add: acc1_def le_val_shift_in uv d)
  from Cons.IH [of acc1] Cons.prems obtain acc' where
    a: "accumulate s acc1 = Some acc'" "length acc' = length acc1"
       "le_val acc' = (le_val acc1 * 32 ^ length s + acc130 s) mod 2 ^ (64 * length acc1)"
    by auto
  define K :: nat where "K = 2 ^ (64 * length acc)"
  have "le_val acc' = ((le_val acc * 32 + digit c) mod K * 32 ^ length s + acc130 s) mod K"
    using a(3) by (simp add: v1 l1 K_def)
  also have "\<dots> = ((le_val acc * 32 + digit c) * 32 ^ length s + acc130 s) mod K"
    by (metis mod_add_left_eq mod_mult_left_eq)
  also have "(le_val acc * 32 + digit c) * 32 ^ length s + acc130 s
      = le_val acc * 32 ^ length (c # s) + acc130 (c # s)"
    by (simp add: acc130_Cons algebra_simps)
  finally show ?case using a(1,2) l1 by (simp add: v acc1_def K_def)
qed

lemma pow32: "(32::nat) ^ k = 2 ^ (5 * k)"
  using power_mult [of "2::nat" 5 k] by simp

lemma from_string_length: "length s \<noteq> 26 \<Longrightarrow> from_string s = None"
  by (simp add: from_string_def)

lemma from_string_bad_char:
  "\<exists>c \<in> set s. decode_crockford c = None \<Longrightarrow> from_string s = None"
  by (simp add: from_string_def accumulate_None)

lemma list3: "length (xs::'a list) = 3 \<Longrightarrow> \<exists>a b c. xs = [a, b, c]"
  by (cases xs; cases "tl xs"; cases "tl (tl xs)") auto

lemma and3_zero: "((a::u64) AND 0x3 = 0) = (unat a mod 4 = 0)"
proof -
  have "(0x3::u64) = mask 2" by (simp add: mask_eq_exp_minus_1)
  then have "a AND 0x3 = take_bit 2 a" by (simp add: take_bit_eq_mask)
  moreover have "unat (take_bit 2 a) = take_bit 2 (unat a)" by (rule unsigned_take_bit_eq)
  ultimately have "unat (a AND 0x3) = unat a mod 4" by (simp add: take_bit_eq_mod)
  then show ?thesis by (metis unsigned_eq_0_iff)
qed

lemma from_string_good:
  assumes len: "length s = 26" and ok: "\<forall>c \<in> set s. decode_crockford c \<noteq> None"
  shows "if 2 ^ 128 \<le> acc130 s then from_string s = None
     else (\<exists>u. from_string s = Some u \<and> length u = 16 \<and> be_nat u = acc130 s)"
proof -
  define V where "V = acc130 s"
  from accumulate_Some [OF ok, of "[0, 0, 0]"] obtain acc where
    acc: "accumulate s [0, 0, 0] = Some acc" "length acc = 3"
         "le_val acc = V mod 2 ^ 192"
    by (auto simp: V_def)
  from acc(2) obtain a0 a1 a2 where a: "acc = [a0, a1, a2]" using list3 by blast
  have "V < 32 ^ 26" using acc130_bound [of s] len by (simp add: V_def)
  then have V130: "V < 2 ^ 130" by simp
  then have "V mod 2 ^ 192 = V" by simp
  with acc(3) a have val: "unat a0 + 2 ^ 64 * (unat a1 + 2 ^ 64 * unat a2) = V" by simp
  define M :: nat where "M = 2 ^ 64"
  have b0: "unat a0 < M" and b1: "unat a1 < M" using unat_u64_less by (simp_all add: M_def)
  from val have val': "unat a0 + M * (unat a1 + M * unat a2) = V" by (simp add: M_def)
  have d0: "V div M = unat a1 + M * unat a2" using b0 val' [symmetric] by simp
  have d1: "(V div M) div M = unat a2" using b1 d0 by simp
  have "(V div M) div M = V div (M * M)" by (simp add: div_mult2_eq)
  with d1 have a2: "unat a2 = V div 2 ^ 128" by (simp add: M_def)
  have lt4: "V div 2 ^ 128 < 4" using V130 by (simp add: less_mult_imp_div_less)
  have "(V div 2 ^ 128 = 0) = (V < 2 ^ 128)" by (simp add: div_eq_0_iff)
  with lt4 have canon: "(a2 AND 0x3 = 0) = (V < 2 ^ 128)"
    unfolding and3_zero a2 by simp
  show ?thesis
  proof (cases "2 ^ 128 \<le> V")
    case True
    then have "a2 AND 0x3 \<noteq> 0" using canon by simp
    then have "from_string s = None"
      by (simp add: from_string_def len acc(1) a)
    with True show ?thesis by (simp add: V_def)
  next
    case False
    then have z: "a2 AND 0x3 = 0" using canon by simp
    define u where "u = write_big_endian 8 a1 @ write_big_endian 8 a0"
    have fs: "from_string s = Some u"
      using z by (simp add: from_string_def len acc(1) a u_def)
    have "unat a2 = 0" using False a2 by (simp add: div_eq_0_iff)
    with val' have V: "V = unat a1 * M + unat a0" by (simp add: mult.commute add.commute)
    have "be_nat u = (unat a1 mod M) * M + unat a0 mod M"
      by (simp add: u_def be_nat_append be_nat_write_big_endian M_def)
    also have "\<dots> = V" using b0 b1 V by simp
    finally have "be_nat u = V" .
    moreover have "length u = 16" by (simp add: u_def)
    ultimately show ?thesis using fs False by (auto simp: V_def)
  qed
qed

lemma encode_base32_nat:
  assumes "length bytes = 16"
  shows "encode_base32 bytes = map (\<lambda>i. ENCODING ! digit_at (be_nat bytes) i) [0..<26]"
proof -
  have l1: "length (take 8 bytes) \<le> 8" and l2: "length (drop 8 bytes) \<le> 8"
    using assms by simp_all
  have t: "take 8 (drop 8 bytes) = drop 8 bytes" using assms by simp
  have "be_nat (take 8 bytes @ drop 8 bytes) = be_nat (take 8 bytes) * 256 ^ 8 + be_nat (drop 8 bytes)"
    using assms by (simp only: be_nat_append) simp
  then have N: "be_nat bytes = be_nat (take 8 bytes) * 2 ^ 64 + be_nat (drop 8 bytes)" by simp
  have "unat (extract_digit (read_big_endian (take 8 bytes))
                (read_big_endian (take 8 (drop 8 bytes))) (int i)) = digit_at (be_nat bytes) i"
    if "i < 26" for i
  proof -
    have "125 - 5 * i = 5 * (25 - i)" using that by simp
    then have "(2::nat) ^ (125 - 5 * i) = 32 ^ (25 - i)" by (simp only: pow32)
    then show ?thesis
      unfolding unat_extract_digit [OF that] t unat_read_big_endian [OF l1]
        unat_read_big_endian [OF l2] digit_at_def N by simp
  qed
  then show ?thesis
    by (simp add: encode_base32_def Let_def)
qed

lemma length_encode_base32 [simp]: "length (encode_base32 bytes) = 26"
  by (simp add: encode_base32_def Let_def)

lemma acc130_map_ENCODING:
  "\<forall>d \<in> set ds. d < 32 \<Longrightarrow> acc130 (map (\<lambda>d. ENCODING ! d) ds) = foldl (\<lambda>v d. v * 32 + d) 0 ds"
  by (induction ds rule: rev_induct) (simp_all add: acc130_def digit_ENCODING)

lemma digits_of_value:
  "foldl (\<lambda>v d. v * 32 + d) 0 (map (\<lambda>i. (N div 32 ^ (n - 1 - i)) mod 32) [0..<n]) = (N::nat) mod 32 ^ n"
proof (induction n arbitrary: N)
  case 0
  then show ?case by simp
next
  case (Suc n)
  define g where "g = (\<lambda>i. (N div 32 ^ (Suc n - 1 - i)) mod 32)"
  define h where "h = (\<lambda>i. ((N div 32) div 32 ^ (n - 1 - i)) mod 32)"
  define F where "F = (\<lambda>(v::nat) d. v * 32 + d)"
  have m: "map g [0..<n] = map h [0..<n]"
  proof (rule map_cong [OF refl])
    fix i assume "i \<in> set [0..<n]"
    then have "Suc n - 1 - i = Suc (n - 1 - i)" by auto
    then show "g i = h i"
      by (simp add: g_def h_def div_mult2_eq)
  qed
  have ih: "foldl F 0 (map h [0..<n]) = (N div 32) mod 32 ^ n"
    unfolding F_def h_def by (rule Suc.IH)
  have gn: "g n = N mod 32" by (simp add: g_def)
  have "foldl F 0 (map g [0..<Suc n]) = foldl F 0 (map g [0..<n]) * 32 + g n"
    by (simp add: F_def)
  also have "\<dots> = (N div 32) mod 32 ^ n * 32 + N mod 32"
    by (simp only: m ih gn)
  also have "\<dots> = N mod (32 * 32 ^ n)"
    by (simp add: mod_mult2_eq)
  finally show ?case by (simp add: F_def g_def)
qed

lemma acc130_encode:
  assumes "length bytes = 16"
  shows "acc130 (encode_base32 bytes) = be_nat bytes"
proof -
  define N where "N = be_nat bytes"
  have "N < 256 ^ 16" using be_nat_bound [of bytes] assms by (simp add: N_def)
  then have N: "N < 32 ^ 26" by simp
  have "encode_base32 bytes = map (\<lambda>d. ENCODING ! d) (map (digit_at N) [0..<26])"
    by (simp add: encode_base32_nat [OF assms] N_def comp_def)
  moreover have "\<forall>d \<in> set (map (digit_at N) [0..<26]). d < 32"
    by (simp add: digit_at_def)
  ultimately have "acc130 (encode_base32 bytes) = foldl (\<lambda>v d. v * 32 + d) 0 (map (digit_at N) [0..<26])"
    by (simp only: acc130_map_ENCODING)
  also have "map (digit_at N) [0..<26] = map (\<lambda>i. (N div 32 ^ (26 - 1 - i)) mod 32) [0..<26]"
    by (simp add: digit_at_def)
  also have "foldl (\<lambda>v d. v * 32 + d) 0 \<dots> = N mod 32 ^ 26"
    by (rule digits_of_value)
  finally show ?thesis using N by (simp add: N_def)
qed

lemma decode_encode_ok: "c \<in> set (encode_base32 bytes) \<Longrightarrow> decode_crockford c \<noteq> None"
proof -
  assume "c \<in> set (encode_base32 bytes)"
  then obtain i where "c = ENCODING ! unat (extract_digit (read_big_endian (take 8 bytes))
        (read_big_endian (take 8 (drop 8 bytes))) (int i))" "i < 26"
    by (auto simp: encode_base32_def Let_def)
  moreover have "unat (extract_digit hi lo (int i)) < 32" if "i < 26" for hi lo i
    by (simp add: unat_extract_digit [OF that])
  ultimately show ?thesis by (simp add: decode_ENCODING)
qed

lemma from_string_encode:
  assumes "length bytes = 16"
  shows "from_string (encode_base32 bytes) = Some bytes"
proof -
  let ?s = "encode_base32 bytes"
  have ok: "\<forall>c \<in> set ?s. decode_crockford c \<noteq> None" using decode_encode_ok by blast
  have "be_nat bytes < 256 ^ 16" using be_nat_bound [of bytes] assms by simp
  then have "\<not> 2 ^ 128 \<le> acc130 ?s" by (simp add: acc130_encode [OF assms])
  with from_string_good [OF length_encode_base32 ok]
  obtain u where u: "from_string ?s = Some u" "length u = 16" "be_nat u = acc130 ?s"
    by (auto split: if_splits)
  then have "u = bytes" using assms by (intro be_nat_inj) (simp_all add: acc130_encode)
  with u(1) show ?thesis by simp
qed

lemma from_bytes_id: "length b = 16 \<Longrightarrow> from_bytes b = b"
  unfolding from_bytes_def by (metis map_nth)

section \<open>Decoding followed by encoding\<close>

lemma decode_None_iff: "(decode_crockford c = None) = (\<not> accepted_symbol c)"
  by (simp add: decode_crockford_def accepted_symbol_def)

lemma ENCODING_digit_all:
  "\<forall>c \<in> set (''0123456789ABCDEFGHJKMNPQRSTVWXYZ'' @ ''abcdefghjkmnpqrstvwxyz'' @ ''OoIiLl'').
     ENCODING ! digit c = canonical_char c"
  by code_simp

lemma ENCODING_digit: "decode_crockford c \<noteq> None \<Longrightarrow> ENCODING ! digit c = canonical_char c"
proof -
  assume "decode_crockford c \<noteq> None"
  then have "accepted_symbol c" by (simp add: decode_None_iff)
  then have "c \<in> set (''0123456789ABCDEFGHJKMNPQRSTVWXYZ'' @ ''abcdefghjkmnpqrstvwxyz'' @ ''OoIiLl'')"
    unfolding accepted_symbol_def set_append by blast
  with ENCODING_digit_all show ?thesis by blast
qed

lemma digit_at_acc130:
  "i < length s \<Longrightarrow> (acc130 s div 32 ^ (length s - 1 - i)) mod 32 = digit (s ! i)"
proof (induction s rule: rev_induct)
  case Nil
  then show ?case by simp
next
  case (snoc c s)
  show ?case
  proof (cases "i < length s")
    case True
    then have e: "length (s @ [c]) - 1 - i = Suc (length s - 1 - i)" by simp
    have "(acc130 s * 32 + digit c) div 32 = acc130 s" using digit_less [of c] by simp
    then have "(acc130 (s @ [c]) div 32 ^ (length (s @ [c]) - 1 - i)) = acc130 s div 32 ^ (length s - 1 - i)"
      unfolding e acc130_snoc by (simp add: div_mult2_eq)
    then show ?thesis using snoc.IH True by (simp add: nth_append)
  next
    case False
    then have "i = length s" using snoc.prems by simp
    then show ?thesis using digit_less [of c] by (simp add: acc130_snoc)
  qed
qed

lemma from_string_Some_D:
  assumes "from_string s = Some u"
  shows "length s = 26" "\<forall>c \<in> set s. decode_crockford c \<noteq> None" "acc130 s < 2 ^ 128"
    "length u = 16" "be_nat u = acc130 s"
proof -
  show len: "length s = 26" using assms from_string_length by fastforce
  show ok: "\<forall>c \<in> set s. decode_crockford c \<noteq> None" using assms from_string_bad_char by fastforce
  from from_string_good [OF len ok] assms
  show "acc130 s < 2 ^ 128" "length u = 16" "be_nat u = acc130 s"
    by (auto split: if_splits)
qed

lemma to_string_from_string:
  assumes "from_string s = Some u"
  shows "to_string u = map (\<lambda>c. ENCODING ! digit c) s"
proof -
  note d = from_string_Some_D [OF assms]
  have "to_string u = map (\<lambda>i. ENCODING ! digit_at (acc130 s) i) [0..<26]"
    by (simp add: to_string_def encode_base32_nat d(4) d(5))
  also have "\<dots> = map (\<lambda>i. ENCODING ! digit (s ! i)) [0..<26]"
  proof (rule map_cong [OF refl])
    fix i assume "i \<in> set [0..<26]"
    then have "i < length s" using d(1) by simp
    from digit_at_acc130 [OF this] show "ENCODING ! digit_at (acc130 s) i = ENCODING ! digit (s ! i)"
      by (simp add: digit_at_def d(1))
  qed
  also have "\<dots> = map (\<lambda>c. ENCODING ! digit c) (map (nth s) [0..<length s])"
    by (simp add: d(1) comp_def)
  also have "map (nth s) [0..<length s] = s" by (rule map_nth)
  finally show ?thesis .
qed

lemma bits_128_129:
  assumes "V < 2 ^ 130"
  shows "(bit V 128 \<or> bit V 129) = (2 ^ 128 \<le> (V::nat))"
proof -
  define x where "x = V div 2 ^ 128"
  have x4: "x < 4" using assms by (simp add: x_def less_mult_imp_div_less)
  have "V div 2 ^ 129 = x div 2" by (simp add: x_def div_mult2_eq)
  then have "(bit V 128 \<or> bit V 129) = (odd x \<or> odd (x div 2))"
    by (simp add: bit_iff_odd x_def)
  also have "\<dots> = (x \<noteq> 0)"
  proof -
    from x4 consider "x = 0" | "x = 1" | "x = 2" | "x = 3" by linarith
    then show ?thesis by cases simp_all
  qed
  also have "\<dots> = (2 ^ 128 \<le> V)" by (simp add: x_def div_eq_0_iff not_less)
  finally show ?thesis .
qed

section \<open>The randomness field as a counter\<close>

lemma length_increment_from_back [simp]: "length (increment_from_back bs) = length bs"
  by (induction bs) simp_all

lemma length_increment_big_endian [simp]: "length (increment_big_endian bs) = length bs"
  by (simp add: increment_big_endian_def)

lemma unat_byte_Suc: "(b::byte) \<noteq> 0xFF \<Longrightarrow> unat (b + 1) = unat b + 1"
proof -
  assume "b \<noteq> 0xFF"
  then have "unat b \<noteq> 255" by (simp add: word_unat_eq_iff)
  then have "unat b + 1 < 2 ^ 8" using unat_byte_less [of b] by simp
  then show ?thesis by (simp add: unat_word_ariths)
qed

lemma be_nat_increment_from_back:
  "be_nat (rev (increment_from_back xs)) = (be_nat (rev xs) + 1) mod 256 ^ length xs"
proof (induction xs)
  case Nil
  then show ?case by simp
next
  case (Cons b bs)
  define B where "B = be_nat (rev bs)"
  define K :: nat where "K = 256 ^ length bs"
  have BK: "B < K" using be_nat_bound [of "rev bs"] by (simp add: B_def K_def)
  show ?case
  proof (cases "b = 0xFF")
    case True
    have "be_nat (rev (increment_from_back (b # bs))) = ((B + 1) mod K) * 256"
      using True Cons.IH by (simp add: B_def K_def)
    also have "\<dots> = ((B + 1) * 256) mod (K * 256)" by (rule mod_mult_mult2 [symmetric])
    also have "(B + 1) * 256 = B * 256 + unat b + 1" using True by simp
    finally show ?thesis by (simp add: B_def K_def mult.commute)
  next
    case False
    have "B * 256 + unat b + 1 < (B + 1) * 256" using unat_byte_less [of b] unat_byte_Suc [OF False]
      unat_byte_less [of "b + 1"] by simp
    also have "\<dots> \<le> K * 256" using BK by (intro mult_le_mono1) simp
    finally have "B * 256 + unat b + 1 < K * 256" .
    then have "(B * 256 + unat b + 1) mod (K * 256) = B * 256 + unat b + 1" by simp
    then show ?thesis using False by (simp add: unat_byte_Suc B_def K_def mult.commute)
  qed
qed

lemma be_nat_increment_big_endian:
  "be_nat (increment_big_endian bs) = (be_nat bs + 1) mod 256 ^ length bs"
  using be_nat_increment_from_back [of "rev bs"] by (simp add: increment_big_endian_def)

lemma increment_big_endian_wrap:
  "increment_big_endian (replicate n 0xFF) = replicate n 0"
proof -
  have "increment_from_back (replicate n 0xFF) = replicate n 0"
    by (induction n) simp_all
  then show ?thesis by (simp add: increment_big_endian_def)
qed

section \<open>The calendar conversions\<close>

lemma hinnant_n_step:
  assumes "0 \<le> d" "d < 146096"
  shows "hinnant_n d \<le> hinnant_n (d + 1)"
proof (cases "d + 1 = 146096")
  case True
  then have "d = 146095" by simp
  then show ?thesis by (simp add: hinnant_n_def)
next
  case False
  then have "d + 1 < 146096" using assms by simp
  then have c: "(d + 1) div 146096 = 0" "d div 146096 = 0" using assms by simp_all
  have a: "(d + 1) div 1460 \<le> d div 1460 + 1" by simp
  have b: "d div 36524 \<le> (d + 1) div 36524" by (simp add: zdiv_mono1)
  show ?thesis unfolding hinnant_n_def c using a b by linarith
qed

lemma hinnant_n_mono:
  assumes "0 \<le> d" "d \<le> d'" "d' \<le> 146096"
  shows "hinnant_n d \<le> hinnant_n d'"
  using assms(2,1,3)
proof (induction d' rule: int_ge_induct)
  case base
  then show ?case by simp
next
  case (step i)
  then have "hinnant_n i \<le> hinnant_n (i + 1)" by (intro hinnant_n_step) simp_all
  with step show ?case by simp
qed

lemma hinnant_yoe_mono:
  "0 \<le> d \<Longrightarrow> d \<le> d' \<Longrightarrow> d' \<le> 146096 \<Longrightarrow> hinnant_yoe d \<le> hinnant_yoe d'"
  unfolding hinnant_yoe_def by (intro zdiv_mono1 hinnant_n_mono) simp_all

lemma year_table:
  "\<forall>Y \<in> set [0..399]. hinnant_yoe (year_start Y) = Y \<and> hinnant_yoe (year_end Y) = Y"
  by code_simp

lemma tdiv_nonneg: "0 \<le> a \<Longrightarrow> 0 < b \<Longrightarrow> tdiv a b = a div b"
  by (cases "a = 0") (simp_all add: tdiv_def)

lemma year_start_step:
  "year_start Y < year_start (Y + 1)"
proof -
  define A where "A = Y div 4"
  define A' where "A' = (Y + 1) div 4"
  define B where "B = Y div 100"
  define B' where "B' = (Y + 1) div 100"
  have "A \<le> A'" unfolding A_def A'_def by (simp add: zdiv_mono1)
  moreover have "B' \<le> B + 1" unfolding B_def B'_def by simp
  ultimately have "365 * Y + A - B < 365 * (Y + 1) + A' - B'" by arith
  then show ?thesis unfolding year_start_def A_def A'_def B_def B'_def .
qed

lemma year_end_lt: "0 \<le> Y \<Longrightarrow> Y \<le> 398 \<Longrightarrow> year_end Y + 1 = year_start (Y + 1)"
  by (simp add: year_end_def)

lemma year_start_le_end: "0 \<le> Y \<Longrightarrow> Y \<le> 399 \<Longrightarrow> year_start Y \<le> year_end Y"
  using year_start_step [of Y] by (auto simp: year_end_def year_start_def)

lemma year_exists:
  assumes "0 \<le> d" "d \<le> 146096"
  shows "\<exists>Y. 0 \<le> Y \<and> Y \<le> 399 \<and> year_start Y \<le> d \<and> d \<le> year_end Y"
  using assms
proof (induction d rule: int_ge_induct)
  case base
  have "year_start 0 \<le> 0 \<and> 0 \<le> year_end 0" by (simp add: year_start_def year_end_def)
  then show ?case by force
next
  case (step i)
  then obtain Y where Y: "0 \<le> Y" "Y \<le> 399" "year_start Y \<le> i" "i \<le> year_end Y" by auto
  show ?case
  proof (cases "i + 1 \<le> year_end Y")
    case True
    with Y show ?thesis by force
  next
    case False
    with Y(4) have e: "i = year_end Y" by simp
    have "Y \<noteq> 399" using e step.prems by (auto simp: year_end_def)
    with Y have Y398: "Y \<le> 398" by simp
    then have s: "i + 1 = year_start (Y + 1)" using e year_end_lt [of Y] Y(1) by simp
    have "year_start (Y + 1) \<le> year_end (Y + 1)" using Y(1) Y398 by (intro year_start_le_end) simp_all
    with s Y(1) Y398 show ?thesis by (intro exI [of _ "Y + 1"]) simp
  qed
qed

lemma hinnant_yoe_correct:
  assumes "0 \<le> d" "d \<le> 146096"
  shows "0 \<le> hinnant_yoe d \<and> hinnant_yoe d \<le> 399
         \<and> year_start (hinnant_yoe d) \<le> d \<and> d \<le> year_end (hinnant_yoe d)"
proof -
  from year_exists [OF assms] obtain Y where
    Y: "0 \<le> Y" "Y \<le> 399" "year_start Y \<le> d" "d \<le> year_end Y" by auto
  then have "Y \<in> set [0..399]" by simp
  with year_table have t: "hinnant_yoe (year_start Y) = Y" "hinnant_yoe (year_end Y) = Y" by blast+
  have s0: "0 \<le> year_start Y" using Y(1) by (simp add: year_start_def)
  have e1: "year_end Y \<le> 146096"
  proof (cases "Y = 399")
    case True
    then show ?thesis by (simp add: year_end_def)
  next
    case False
    define A where "A = (Y + 1) div 4"
    define B where "B = (Y + 1) div 100"
    have "A \<le> 399 div 4" unfolding A_def using Y(2) False by (intro zdiv_mono1) simp_all
    moreover have "0 \<le> B" unfolding B_def using Y(1) by simp
    moreover have "Y \<le> 398" using Y(2) False by simp
    ultimately have "365 * (Y + 1) + A - B - 1 \<le> 146096" by simp
    then show ?thesis using False unfolding year_end_def year_start_def A_def B_def by simp
  qed
  have "hinnant_yoe (year_start Y) \<le> hinnant_yoe d"
    using s0 Y(3) assms(2) by (rule hinnant_yoe_mono)
  moreover have "hinnant_yoe d \<le> hinnant_yoe (year_end Y)"
    using assms(1) Y(4) e1 by (rule hinnant_yoe_mono)
  ultimately have "hinnant_yoe d = Y" using t by simp
  with Y show ?thesis by simp
qed

lemma month_day_table: "\<forall>doy \<in> set [0..365]. month_day_ok doy"
  by code_simp

lemma month_day_okI: "0 \<le> doy \<Longrightarrow> doy \<le> 365 \<Longrightarrow> month_day_ok doy"
  using month_day_table by simp

lemma year_length_table: "\<forall>Y \<in> set [0..399]. year_length_ok Y"
  by code_simp

lemma year_length_okI: "0 \<le> Y \<Longrightarrow> Y \<le> 399 \<Longrightarrow> year_length_ok Y"
  using year_length_table by simp

lemma is_leap_shift: "is_leap (Y + e * 400) = is_leap Y"
proof -
  have "(Y + e * 400) mod 400 = Y mod 400" by simp
  moreover have "(Y + (e * 100) * 4) mod 4 = Y mod 4" by (rule mod_mult_self1)
  moreover have "(Y + (e * 4) * 100) mod 100 = Y mod 100" by (rule mod_mult_self1)
  ultimately show ?thesis by (simp add: is_leap_def mult.assoc)
qed

lemma civil_from_days_eq:
  assumes "z = days + 719468"
    and "era = tdiv (if z \<ge> 0 then z else z - 146096) 146097"
    and "doe = z - era * 146097"
    and "yoe = (doe - doe div 1460 + doe div 36524 - doe div 146096) div 365"
    and "doy = doe - (365 * yoe + yoe div 4 - yoe div 100)"
    and "mp = (5 * doy + 2) div 153"
    and "d = doy - (153 * mp + 2) div 5 + 1"
    and "m = (if mp < 10 then mp + 3 else mp - 9)"
  shows "civil_from_days days = (yoe + era * 400 + (if m \<le> 2 then 1 else 0), m, d)"
  unfolding civil_from_days_def by (simp only: Let_def assms)

lemma days_from_civil_eq:
  assumes "yr = y - (if m \<le> 2 then 1 else 0)"
    and "era = tdiv (if yr \<ge> 0 then yr else yr - 399) 400"
    and "yoe = yr - era * 400"
    and "doy = (153 * (m + (if m > 2 then - 3 else 9)) + 2) div 5 + d - 1"
    and "doe = yoe * 365 + yoe div 4 - yoe div 100 + doy"
  shows "days_from_civil y m d = era * 146097 + doe - 719468"
  unfolding days_from_civil_def by (simp only: Let_def assms)

lemma civil_from_days_correct:
  assumes "0 \<le> days"
  shows "\<exists>y m d. civil_from_days days = (y, m, d) \<and> 0 \<le> y \<and> 1 \<le> m \<and> m \<le> 12 \<and> 1 \<le> d
           \<and> d \<le> last_day_of_month y m \<and> days_from_civil y m d = days"
proof -
  define z where "z = days + 719468"
  define era where "era = z div 146097"
  define doe where "doe = z - era * 146097"
  define Y where "Y = hinnant_yoe doe"
  define doy where "doy = doe - year_start Y"
  define mp where "mp = (5 * doy + 2) div 153"
  define d where "d = doy - (153 * mp + 2) div 5 + 1"
  define m where "m = (if mp < 10 then mp + 3 else mp - 9)"
  define y where "y = Y + era * 400 + (if m \<le> 2 then 1 else 0)"
  have z0: "0 \<le> z" using assms by (simp add: z_def)
  have "719468 div 146097 \<le> z div 146097" using assms by (intro zdiv_mono1) (simp_all add: z_def)
  then have era4: "4 \<le> era" by (simp add: era_def)
  have doe_mod: "doe = z mod 146097" by (simp add: doe_def era_def minus_div_mult_eq_mod)
  then have doe: "0 \<le> doe" "doe \<le> 146096" by simp_all
  note Yc = hinnant_yoe_correct [OF doe, folded Y_def]
  then have Y: "0 \<le> Y" "Y \<le> 399" and ys: "year_start Y \<le> doe" and ye: "doe \<le> year_end Y"
    by simp_all
  note yl = year_length_okI [OF Y, unfolded year_length_ok_def]
  have doy: "0 \<le> doy" "doy \<le> 365" using ys ye yl by (simp_all add: doy_def)
  note md = month_day_okI [OF doy, unfolded month_day_ok_def Let_def, folded mp_def, folded d_def]
  then have mp: "0 \<le> mp" "mp \<le> 11" and d1: "1 \<le> d" by simp_all
  have m: "1 \<le> m" "m \<le> 12" using mp by (simp_all add: m_def)
  have "civil_from_days days = (Y + era * 400 + (if m \<le> 2 then 1 else 0), m, d)"
  proof (rule civil_from_days_eq [of z days era doe Y doy mp d m])
    show "z = days + 719468" by (rule z_def)
    show "era = tdiv (if z \<ge> 0 then z else z - 146096) 146097"
      using z0 by (simp add: tdiv_nonneg era_def)
    show "doe = z - era * 146097" by (rule doe_def)
    show "Y = (doe - doe div 1460 + doe div 36524 - doe div 146096) div 365"
      by (simp add: Y_def hinnant_yoe_def hinnant_n_def)
    show "doy = doe - (365 * Y + Y div 4 - Y div 100)" by (simp add: doy_def year_start_def)
    show "mp = (5 * doy + 2) div 153" by (rule mp_def)
    show "d = doy - (153 * mp + 2) div 5 + 1" by (rule d_def)
    show "m = (if mp < 10 then mp + 3 else mp - 9)" by (rule m_def)
  qed
  then have cfd: "civil_from_days days = (y, m, d)" by (simp only: y_def)
  have last: "d \<le> last_day_of_month y m"
  proof (cases "mp = 11")
    case True
    then have m2: "m = 2" by (simp add: m_def)
    from md True have dd: "d = doy - 336" by simp
    show ?thesis
    proof (cases "doy = 365")
      case True
      then have "year_end Y - year_start Y = 365" using ye yl by (simp add: doy_def)
      with yl have "is_leap (Y + 1)" by simp
      moreover have "y = Y + 1 + era * 400" using m2 by (simp add: y_def)
      ultimately have "is_leap y" by (simp only: is_leap_shift)
      then show ?thesis using dd True m2 by (simp add: last_day_of_month_def)
    next
      case False
      then have "d \<le> 28" using dd doy by simp
      then show ?thesis using m2 by (simp add: last_day_of_month_def)
    qed
  next
    case False
    with md have dle: "d \<le> (if mp = 1 \<or> mp = 3 \<or> mp = 6 \<or> mp = 8 then 30 else 31)" by simp
    have "m \<noteq> 2" using False mp by (simp add: m_def)
    moreover have "(m = 4 \<or> m = 6 \<or> m = 9 \<or> m = 11) = (mp = 1 \<or> mp = 3 \<or> mp = 6 \<or> mp = 8)"
      using mp by (auto simp: m_def)
    ultimately show ?thesis using dle by (simp add: last_day_of_month_def)
  qed
  have yr: "y - (if m \<le> 2 then 1 else 0) = Y + era * 400" by (simp add: y_def)
  have yr0: "0 \<le> Y + era * 400" using Y era4 by simp
  have era': "(Y + era * 400) div 400 = era" using Y by simp
  have mp': "m + (if m > 2 then - 3 else 9) = mp" using mp by (auto simp: m_def)
  have doy': "(153 * mp + 2) div 5 + d - 1 = doy" by (simp add: d_def)
  have "days_from_civil y m d = era * 146097 + doe - 719468"
  proof (rule days_from_civil_eq [of "Y + era * 400" y m era Y doy d doe])
    show "Y + era * 400 = y - (if m \<le> 2 then 1 else 0)" by (simp add: yr)
    show "era = tdiv (if Y + era * 400 \<ge> 0 then Y + era * 400 else Y + era * 400 - 399) 400"
      using yr0 era' by (simp add: tdiv_nonneg)
    show "Y = Y + era * 400 - era * 400" by simp
    show "doy = (153 * (m + (if m > 2 then - 3 else 9)) + 2) div 5 + d - 1"
      by (simp only: mp' doy')
    show "doe = Y * 365 + Y div 4 - Y div 100 + doy" by (simp add: doy_def year_start_def)
  qed
  also have "era * 146097 + doe - 719468 = days" by (simp add: doe_def z_def)
  finally have rt: "days_from_civil y m d = days" .
  have "0 \<le> y" using yr0 by (simp add: y_def)
  with cfd m d1 last rt show ?thesis by blast
qed

section \<open>Fixed-width decimal fields\<close>

declare dec_digits.simps [simp del]

lemma length_fixed_digits [simp]: "length (fixed_digits w n) = w"
  by (simp add: fixed_digits_def)

lemma fixed_digits_Suc:
  "fixed_digits (Suc w) n = fixed_digits w (n div 10) @ [char_of (48 + n mod 10)]"
proof -
  have "map (\<lambda>i. char_of (48 + (n div 10 ^ (Suc w - 1 - i)) mod 10)) [0..<w]
      = map (\<lambda>i. char_of (48 + ((n div 10) div 10 ^ (w - 1 - i)) mod 10)) [0..<w]"
  proof (rule map_cong [OF refl])
    fix i assume "i \<in> set [0..<w]"
    then have "Suc w - 1 - i = Suc (w - 1 - i)" by auto
    then show "char_of (48 + (n div 10 ^ (Suc w - 1 - i)) mod 10)
        = char_of (48 + ((n div 10) div 10 ^ (w - 1 - i)) mod 10)"
      by (simp add: div_mult2_eq)
  qed
  then show ?thesis unfolding fixed_digits_def by simp
qed

lemma char_of_48: "char_of (48::nat) = CHR ''0''"
  by code_simp

lemma fixed_digits_zero: "fixed_digits w 0 = replicate w CHR ''0''"
proof (induction w)
  case 0
  then show ?case by (simp add: fixed_digits_def)
next
  case (Suc w)
  then show ?case by (simp add: fixed_digits_Suc char_of_48 replicate_append_same)
qed

lemma length_dec_digits_pos: "0 < length (dec_digits n)"
  by (subst dec_digits.simps) simp

lemma pad_dec_digits:
  "n < 10 ^ w \<Longrightarrow> 0 < w \<Longrightarrow>
     length (dec_digits n) \<le> w
     \<and> replicate (w - length (dec_digits n)) CHR ''0'' @ dec_digits n = fixed_digits w n"
proof (induction w arbitrary: n)
  case 0
  then show ?case by simp
next
  case (Suc w)
  show ?case
  proof (cases "n < 10")
    case True
    then have dd: "dec_digits n = [char_of (48 + n)]" by (subst dec_digits.simps) simp
    have "fixed_digits (Suc w) n = replicate w CHR ''0'' @ [char_of (48 + n)]"
      using True by (simp add: fixed_digits_Suc fixed_digits_zero)
    then show ?thesis by (simp add: dd)
  next
    case False
    then have dd: "dec_digits n = dec_digits (n div 10) @ [char_of (48 + n mod 10)]"
      by (subst dec_digits.simps) simp
    have "n div 10 < 10 ^ w" using Suc.prems(1) by (simp add: less_mult_imp_div_less mult.commute)
    moreover have "0 < w" using False Suc.prems(1) by (cases w) simp_all
    ultimately have ih: "length (dec_digits (n div 10)) \<le> w"
      "replicate (w - length (dec_digits (n div 10))) CHR ''0'' @ dec_digits (n div 10)
         = fixed_digits w (n div 10)"
      using Suc.IH [of "n div 10"] by simp_all
    show ?thesis using ih by (simp add: dd fixed_digits_Suc)
  qed
qed

lemma format_int_fixed:
  "0 \<le> n \<Longrightarrow> n < 10 ^ w \<Longrightarrow> 0 < w \<Longrightarrow> format_int w n = fixed_digits w (nat n)"
proof -
  assume a: "0 \<le> n" "n < 10 ^ w" "0 < w"
  then have "nat n < 10 ^ w" by (simp add: nat_less_iff)
  from pad_dec_digits [OF this a(3)] a(1) show ?thesis by (simp add: format_int_def)
qed

lemma length_dec_digits_ge: "10 ^ k \<le> n \<Longrightarrow> k < length (dec_digits n)"
proof (induction k arbitrary: n)
  case 0
  show ?case by (rule length_dec_digits_pos)
next
  case (Suc k)
  from Suc.prems have p: "10 * 10 ^ k \<le> n" by simp
  have q: "(10::nat) \<le> 10 * 10 ^ k" by simp
  from q p have "10 \<le> n" by (rule le_trans)
  then have n10: "\<not> n < 10" by simp
  then have dd: "dec_digits n = dec_digits (n div 10) @ [char_of (48 + n mod 10)]"
    by (subst dec_digits.simps) simp
  have "10 ^ k \<le> n div 10" using Suc.prems by (simp add: less_eq_div_iff_mult_less_eq mult.commute)
  then have "k < length (dec_digits (n div 10))" by (rule Suc.IH)
  then show ?case by (simp add: dd)
qed

lemma length_format_int_ge:
  "10 ^ k \<le> n \<Longrightarrow> k < length (format_int w n)"
proof -
  assume a: "10 ^ k \<le> n"
  then have "0 \<le> n" by (smt (verit) zero_less_power)
  moreover have "10 ^ k \<le> nat n" using a by (simp add: le_nat_iff)
  ultimately show ?thesis using length_dec_digits_ge [of k "nat n"]
    by (simp add: format_int_def)
qed

lemma is_digit_char_of: "d < 10 \<Longrightarrow> is_digit (char_of (48 + (d::nat)))"
  by (simp add: is_digit_def)

lemma digit_value_char_of: "d < 10 \<Longrightarrow> of_char (char_of (48 + d)) - 48 = (d::nat)"
  by simp

lemma all_digits_fixed: "\<forall>c \<in> set (fixed_digits w n). is_digit c"
  by (auto simp: fixed_digits_def is_digit_char_of)

lemma dec_value_fixed: "dec_value (fixed_digits w n) = n mod 10 ^ w"
proof (induction w arbitrary: n)
  case 0
  then show ?case by (simp add: fixed_digits_def dec_value_def)
next
  case (Suc w)
  have "dec_value (fixed_digits (Suc w) n) = dec_value (fixed_digits w (n div 10)) * 10 + n mod 10"
    by (simp add: fixed_digits_Suc dec_value_def)
  also have "\<dots> = (n div 10) mod 10 ^ w * 10 + n mod 10" by (simp only: Suc.IH)
  also have "\<dots> = n mod (10 * 10 ^ w)" by (simp add: mod_mult2_eq)
  finally show ?case by simp
qed

lemma parse_u32_fixed:
  assumes "take len (drop pos s) = fixed_digits len n" "n < 10 ^ len" "0 < len" "len \<le> 9"
  shows "parse_u32 s pos len = Some n"
proof -
  have tw: "takeWhile is_digit (fixed_digits len n) = fixed_digits len n"
    using all_digits_fixed by (simp add: takeWhile_eq_all_conv)
  have "n < 10 ^ 9"
    using assms(2,4) by (meson less_le_trans power_increasing one_le_numeral)
  then have small: "\<not> 4294967296 \<le> n" by simp
  have ne: "fixed_digits len n \<noteq> []" using assms(3) by (metis length_fixed_digits length_0_conv less_numeral_extra(3))
  show ?thesis
    using assms(2) small ne by (simp add: parse_u32_def assms(1) tw dec_value_fixed Let_def)
qed

section \<open>Canonical round trip from bytes\<close>

text \<open>
  Claim C3.  For every 16-byte array \<open>b\<close>, \<^verbatim>\<open>from_string(to_string(from_bytes(b)))\<close>
  succeeds, and the bytes of the value it returns are \<open>b\<close>: encoding and then decoding
  the canonical 26-character form is the identity on all 128-bit values.
\<close>

theorem C3_bytes_roundtrip:
  "length b = 16 \<Longrightarrow>
     \<exists>u. from_string (to_string (from_bytes b)) = Some u \<and> to_bytes u = b"
  by (simp add: from_bytes_id to_string_def to_bytes_def from_string_encode)

theorem C3_bytes_roundtrip_witness:
  "length [1, 86, 62, 58, 181, 211, 214, 118, 76, 97, 239, 185, 147, 2, 189, 91 :: byte] = 16
   \<and> (\<exists>u. from_string (to_string (from_bytes
          [1, 86, 62, 58, 181, 211, 214, 118, 76, 97, 239, 185, 147, 2, 189, 91])) = Some u
        \<and> to_bytes u = [1, 86, 62, 58, 181, 211, 214, 118, 76, 97, 239, 185, 147, 2, 189, 91])"
  using C3_bytes_roundtrip [of "[1, 86, 62, 58, 181, 211, 214, 118, 76, 97, 239, 185, 147, 2, 189, 91]"]
  by simp

section \<open>Canonicalisation by decoding\<close>

text \<open>
  Claim C10.  \<^verbatim>\<open>from_string\<close> canonicalises its input character by character: for
  every string \<open>s\<close> it accepts, \<^verbatim>\<open>to_string\<close> of the value returned is \<open>s\<close> with each
  character replaced by its canonical form (lower-case letters upper-cased, \<open>O o\<close>
  replaced by \<open>0\<close>, \<open>I i L l\<close> replaced by \<open>1\<close>), so every one of the 26 positions
  keeps its 5-bit digit value.
\<close>

theorem C10_from_string_canonicalises:
  "from_string s = Some u \<Longrightarrow>
     to_string u = map canonical_char s \<and> map digit (to_string u) = map digit s"
proof -
  assume a: "from_string s = Some u"
  note d = from_string_Some_D [OF a]
  have "to_string u = map (\<lambda>c. ENCODING ! digit c) s" by (rule to_string_from_string [OF a])
  moreover have "map (\<lambda>c. ENCODING ! digit c) s = map canonical_char s"
    using d(2) by (intro map_cong refl ENCODING_digit) simp
  moreover have "map digit (map (\<lambda>c. ENCODING ! digit c) s) = map digit s"
    by (simp add: digit_ENCODING digit_less)
  ultimately show ?thesis by simp
qed

theorem C10_from_string_canonicalises_witness:
  "from_string ''o1arz3ndeKtSv4rrffq69g5fLi''
     = Some [1, 86, 62, 58, 181, 211, 214, 118, 76, 97, 239, 185, 147, 2, 188, 33]
   \<and> to_string [1, 86, 62, 58, 181, 211, 214, 118, 76, 97, 239, 185, 147, 2, 188, 33]
     = ''01ARZ3NDEKTSV4RRFFQ69G5F11''
   \<and> map canonical_char ''o1arz3ndeKtSv4rrffq69g5fLi'' = ''01ARZ3NDEKTSV4RRFFQ69G5F11''"
proof -
  have h: "from_string ''o1arz3ndeKtSv4rrffq69g5fLi''
     = Some [1, 86, 62, 58, 181, 211, 214, 118, 76, 97, 239, 185, 147, 2, 188, 33]"
    by code_simp
  have c: "map canonical_char ''o1arz3ndeKtSv4rrffq69g5fLi'' = ''01ARZ3NDEKTSV4RRFFQ69G5F11''"
    by code_simp
  from C10_from_string_canonicalises [OF h] c h show ?thesis by simp
qed

section \<open>Rejection by the canonical decoder\<close>

text \<open>
  Claim C4.  \<^verbatim>\<open>from_string(s)\<close> returns nothing exactly when \<open>s\<close> has a length other than
  26, or holds a character outside the accepted symbols (the alphabet, case-insensitively,
  with the aliases \<open>O o\<close> and \<open>I i L l\<close>), or the 130-bit value its digits accumulate to has
  bit 128 or bit 129 set; in particular \<open>8\<close> followed by twenty-five \<open>0\<close> is rejected.
\<close>

theorem C4_from_string_rejects:
  "(\<forall>s. (from_string s = None) =
      (length s \<noteq> 26 \<or> (\<exists>c \<in> set s. \<not> accepted_symbol c) \<or> bit (acc130 s) 128 \<or> bit (acc130 s) 129))
   \<and> from_string (CHR ''8'' # replicate 25 CHR ''0'') = None"
proof (intro conjI allI)
  fix s
  show "(from_string s = None) =
      (length s \<noteq> 26 \<or> (\<exists>c \<in> set s. \<not> accepted_symbol c) \<or> bit (acc130 s) 128 \<or> bit (acc130 s) 129)"
  proof (cases "length s = 26 \<and> (\<forall>c \<in> set s. decode_crockford c \<noteq> None)")
    case True
    then have len: "length s = 26" and ok: "\<forall>c \<in> set s. decode_crockford c \<noteq> None" by simp_all
    have "acc130 s < 32 ^ 26" using acc130_bound [of s] len by simp
    then have "acc130 s < 2 ^ 130" by simp
    then have b: "(bit (acc130 s) 128 \<or> bit (acc130 s) 129) = (2 ^ 128 \<le> acc130 s)"
      by (rule bits_128_129)
    have "(from_string s = None) = (2 ^ 128 \<le> acc130 s)"
      using from_string_good [OF len ok] by (auto split: if_splits)
    then show ?thesis using len ok b by (auto simp: decode_None_iff)
  next
    case False
    then have "from_string s = None"
      using from_string_length [of s] from_string_bad_char [of s] by auto
    then show ?thesis using False by (auto simp: decode_None_iff)
  qed
next
  show "from_string (CHR ''8'' # replicate 25 CHR ''0'') = None"
    by code_simp
qed

theorem C4_from_string_rejects_witness:
  "from_string (CHR ''8'' # replicate 25 CHR ''0'') = None
   \<and> length (CHR ''8'' # replicate 25 CHR ''0'') = 26
   \<and> list_all accepted_symbol (CHR ''8'' # replicate 25 CHR ''0'')
   \<and> (bit (acc130 (CHR ''8'' # replicate 25 CHR ''0'')) 128
        \<or> bit (acc130 (CHR ''8'' # replicate 25 CHR ''0'')) 129)
   \<and> from_string ''01ARZ3NDEKTSV4RRFFQ69G5FAV'' \<noteq> None
   \<and> from_string ''01ARZ3NDEKTSV4RRFFQ69G5FAU'' = None
   \<and> from_string ''01ARZ3NDEKTSV4RRFFQ69G5FA'' = None"
proof -
  let ?s = "CHR ''8'' # replicate 25 CHR ''0''"
  have n: "from_string ?s = None" by code_simp
  have l: "length ?s = 26" by simp
  have a: "list_all accepted_symbol ?s" by code_simp
  then have "\<not> (\<exists>c \<in> set ?s. \<not> accepted_symbol c)" by (simp only: list_all_iff) blast
  with C4_from_string_rejects n l
  have b: "bit (acc130 ?s) 128 \<or> bit (acc130 ?s) 129" by blast
  have "from_string ''01ARZ3NDEKTSV4RRFFQ69G5FAV'' \<noteq> None" by code_simp
  moreover have "from_string ''01ARZ3NDEKTSV4RRFFQ69G5FAU'' = None" by code_simp
  moreover have "from_string ''01ARZ3NDEKTSV4RRFFQ69G5FA'' = None" by code_simp
  ultimately show ?thesis using n l a b by blast
qed

section \<open>Monotonic generation within a millisecond\<close>

text \<open>
  Claim C5.  On a call to \<^verbatim>\<open>generate_monotonic\<close> in the primed state with a clock reading
  \<open>ts \<le> last_ts\<close> (the same millisecond, or the clock moved backward), the stored
  timestamp is unchanged and the 80-bit randomness field of the stored identifier, read
  as a big-endian unsigned counter, is incremented by exactly 1, wrapping from all ones
  to all zeros; a backward jump of the clock gives the same result as a call in the same
  millisecond.
\<close>

theorem C5_same_millisecond_increment:
  assumes "have_last st" and "ts \<le> last_ts st" and "length (last_ulid st) = 16"
  shows "case generate_monotonic next ts st of (u, st') \<Rightarrow>
           u = last_ulid st' \<and> last_ts st' = last_ts st \<and> have_last st' \<and> rng st' = rng st
           \<and> length (last_ulid st') = 16
           \<and> timestamp_bytes (last_ulid st') = timestamp_bytes (last_ulid st)
           \<and> be_nat (random_bytes (last_ulid st'))
               = (be_nat (random_bytes (last_ulid st)) + 1) mod 2 ^ 80
           \<and> (random_bytes (last_ulid st) = replicate 10 0xFF
                \<longrightarrow> random_bytes (last_ulid st') = replicate 10 0)
           \<and> generate_monotonic next ts st = generate_monotonic next (last_ts st) st"
proof -
  have old: "\<not> (\<not> have_last st \<or> ts > last_ts st)" using assms by simp
  have same: "\<not> (\<not> have_last st \<or> last_ts st > last_ts st)" using assms by simp
  have "length (drop 6 (last_ulid st)) = 10" using assms(3) by simp
  then have "be_nat (increment_big_endian (drop 6 (last_ulid st)))
      = (be_nat (drop 6 (last_ulid st)) + 1) mod 256 ^ 10"
    by (simp only: be_nat_increment_big_endian)
  moreover have "\<not> last_ts st < ts" using assms(2) by simp
  ultimately show ?thesis
    using assms(1,3)
    by (simp add: generate_monotonic_def Let_def timestamp_bytes_def random_bytes_def
        increment_big_endian_wrap)
qed

theorem C5_same_millisecond_increment_witness:
  "have_last \<lparr>rng = RomuDuoJr_seed 42,
       last_ulid = [0, 0, 0, 0, 0, 5, 0, 0, 0, 0, 0, 0, 0, 0, 0, 255], last_ts = 5,
       have_last = True\<rparr>
   \<and> (3 :: u64) \<le> 5
   \<and> be_nat (random_bytes (last_ulid \<lparr>rng = RomuDuoJr_seed 42,
       last_ulid = [0, 0, 0, 0, 0, 5, 0, 0, 0, 0, 0, 0, 0, 0, 0, 255], last_ts = 5,
       have_last = True\<rparr>)) = 255
   \<and> be_nat (random_bytes (fst (generate_monotonic RomuDuoJr_next 3
       \<lparr>rng = RomuDuoJr_seed 42,
        last_ulid = [0, 0, 0, 0, 0, 5, 0, 0, 0, 0, 0, 0, 0, 0, 0, 255], last_ts = 5,
        have_last = True\<rparr>))) = 256
   \<and> last_ts (snd (generate_monotonic RomuDuoJr_next 3
       \<lparr>rng = RomuDuoJr_seed 42,
        last_ulid = [0, 0, 0, 0, 0, 5, 0, 0, 0, 0, 0, 0, 0, 0, 0, 255], last_ts = 5,
        have_last = True\<rparr>)) = 5"
proof -
  define st :: "RomuDuoJr mono_state" where "st = \<lparr>rng = RomuDuoJr_seed 42,
       last_ulid = [0, 0, 0, 0, 0, 5, 0, 0, 0, 0, 0, 0, 0, 0, 0, 255], last_ts = 5,
       have_last = True\<rparr>"
  have h1: "have_last st" by (simp add: st_def)
  have h2: "3 \<le> last_ts st" by (simp add: st_def)
  have h3: "length (last_ulid st) = 16" by (simp add: st_def)
  have v: "be_nat (random_bytes (last_ulid st)) = 255"
    by (simp add: st_def random_bytes_def be_nat_def)
  let ?G = "generate_monotonic RomuDuoJr_next 3 st"
  note c = C5_same_millisecond_increment [OF h1 h2 h3, of RomuDuoJr_next, unfolded case_prod_beta]
  from c have e1: "fst ?G = last_ulid (snd ?G)" by blast
  from c have e2: "last_ts (snd ?G) = last_ts st" by blast
  from c have e3: "be_nat (random_bytes (last_ulid (snd ?G)))
      = (be_nat (random_bytes (last_ulid st)) + 1) mod 2 ^ 80" by blast
  have r1: "be_nat (random_bytes (fst ?G)) = 256" unfolding e1 e3 v by simp
  have r2: "last_ts (snd ?G) = 5" unfolding e2 by (simp add: st_def)
  have "(3 :: u64) \<le> 5" by simp
  with h1 v r1 r2 show ?thesis unfolding st_def [symmetric] by blast
qed

section \<open>Monotonic generation when the fresh randomness is all ones\<close>

text \<open>
  Claim C2 says that consecutive calls to \<^verbatim>\<open>generate_monotonic\<close> in one context give
  strictly increasing identifiers as long as fewer than $2^{80}$ are requested within one
  stored millisecond.  The randomness of a new millisecond is drawn from the random
  source, and the increment wraps from all ones to all zeros: in a fresh context whose
  random source delivers ten bytes \<open>0xFF\<close> (each the top byte of an engine output), two
  calls at the clock reading 5 return first the identifier with randomness all ones and
  then the smaller one with randomness zero.
\<close>

theorem C2_second_call_not_greater:
  "fst (generate_monotonic_seq (\<lambda>e :: unit. (0xFFFFFFFFFFFFFFFF, e)) [5, 5] (mono_init ()))
     = [[0, 0, 0, 0, 0, 5, 255, 255, 255, 255, 255, 255, 255, 255, 255, 255],
        [0, 0, 0, 0, 0, 5, 0, 0, 0, 0, 0, 0, 0, 0, 0, 0]]
   \<and> \<not> ulid_less [0, 0, 0, 0, 0, 5, 255, 255, 255, 255, 255, 255, 255, 255, 255, 255]
                   [0, 0, 0, 0, 0, 5, 0, 0, 0, 0, 0, 0, 0, 0, 0, 0]
   \<and> ulid_less [0, 0, 0, 0, 0, 5, 0, 0, 0, 0, 0, 0, 0, 0, 0, 0]
                 [0, 0, 0, 0, 0, 5, 255, 255, 255, 255, 255, 255, 255, 255, 255, 255]"
  by code_simp

end
